theory Spec2Isabelle
  imports Complex_Main
begin

section \<open>Data model of \<^verbatim>\<open>laser_model.py\<close>\<close>

text \<open>
  The enumerations \<^verbatim>\<open>Color\<close> and \<^verbatim>\<open>Orientation\<close>. \<^verbatim>\<open>Orientation\<close> is an
  \<^verbatim>\<open>IntEnum\<close>: \<open>value_of\<close> reads the integer of a member and \<open>Orientation_of\<close> is the
  constructor call \<^verbatim>\<open>Orientation(v)\<close>. The source applies the constructor only to
  \<^verbatim>\<open>x % 4\<close> and to \<^verbatim>\<open>1 - x % 2\<close>, which lie in \<open>0..3\<close> (lemma \<open>mod4_in_range\<close>), so the
  \<^verbatim>\<open>ValueError\<close> of an integer outside the enumeration has no branch here.
\<close>

datatype Color = none | blue | red

datatype Orientation = right | up | left | down

fun value_of :: "Orientation \<Rightarrow> int" where
  "value_of right = 0"
| "value_of up = 1"
| "value_of left = 2"
| "value_of down = 3"

definition Orientation_of :: "int \<Rightarrow> Orientation" where
  "Orientation_of v = (if v = 0 then right else if v = 1 then up else if v = 2 then left else down)"

text \<open>The \<^verbatim>\<open>name\<close> attribute set by each token class (a string in the source).\<close>

datatype Kind = queen | deflector | defender | switch | laser

text \<open>
  A token object. The game keeps all tokens in the array \<^verbatim>\<open>Game.tokens\<close>; squares, the
  event log and actions refer to a token object, which is modelled by its index in that array.
\<close>

record Token =
  row :: int
  column :: int
  color :: Color
  destroyed :: bool
  name :: Kind
  orientation :: Orientation

text \<open>
  The exceptions the modelled code can raise, and the two ways of not returning:
  \<open>RecursionError\<close> stands for a chain of \<^verbatim>\<open>hitToken\<close> calls deeper than the recursion
  limit given to the model, \<open>NonTermination\<close> for a \<^verbatim>\<open>while\<close> loop that never exits.
\<close>

datatype error = IndexError | KeyError | UnboundLocalError | AttributeError | TypeError
  | RecursionError | NonTermination

text \<open>
  Entries of the event log: \<^verbatim>\<open>("move", (token, start_square))\<close>,
  \<^verbatim>\<open>("rotation", (token, start_orientation))\<close> and \<^verbatim>\<open>("destruction", token)\<close>.
  A square object is identified by its coordinates \<open>(row, column)\<close>, which never change.
  Actions are \<^verbatim>\<open>("move", (token, square))\<close> and \<^verbatim>\<open>("rotation", (token, orientation))\<close>.
\<close>

datatype event = move_event nat "int \<times> int" | rotation_event nat Orientation | destruction_event nat

datatype action = move nat "int \<times> int" | rotation nat Orientation

text \<open>Entries of \<^verbatim>\<open>positions_log\<close>: a position \<^verbatim>\<open>[row, col]\<close> or one of the two marker strings.\<close>

datatype position_entry = position int int | out | destroyed_mark

text \<open>
  The game: the mutable part of every square of the board (\<^verbatim>\<open>inhabiting_token\<close> and
  \<^verbatim>\<open>highlighted\<close>, addressed by the coordinates of the square), the event log, the beam
  path of the last activation, the turn counter and the token array. The board is the
  8 x 10 grid built by \<^verbatim>\<open>Board.__init__\<close>. The engine reads a square only at coordinates it has
  checked, at the coordinates of a token, along a column from them, or along a laser's line
  of fire; these lie on the board in every reachable state (\<open>reachable_reads_in_grid\<close>), so
  the engine's reads have no branch for an index outside the lists. The controller's read at
  the clicked coordinates has one (\<open>list_index\<close>).
\<close>

record Game =
  inhabiting_token :: "int \<times> int \<Rightarrow> nat option"
  highlighted :: "int \<times> int \<Rightarrow> bool"
  game_log :: "event list"
  positions_log :: "position_entry list"
  turn :: int
  tokens :: "Token list"

text \<open>The static colour of a square, from \<^verbatim>\<open>Board.__init__\<close> (\<open>i\<close> the row, \<open>j\<close> the column).\<close>

definition square_color :: "int \<times> int \<Rightarrow> Color" where
  "square_color sq = (case sq of (i, j) \<Rightarrow>
     if j = 0 \<or> (j = 8 \<and> (i = 0 \<or> i = 7)) then red
     else if j = 9 \<or> (j = 1 \<and> (i = 0 \<or> i = 7)) then blue
     else none)"

text \<open>The token constructors.\<close>

definition Queen :: "int \<Rightarrow> int \<Rightarrow> Color \<Rightarrow> Token" where
  "Queen r c col = \<lparr>row = r, column = c, color = col, destroyed = False, name = queen, orientation = up\<rparr>"

definition Deflector :: "int \<Rightarrow> int \<Rightarrow> Color \<Rightarrow> Orientation \<Rightarrow> Token" where
  "Deflector r c col ori = \<lparr>row = r, column = c, color = col, destroyed = False, name = deflector, orientation = ori\<rparr>"

definition Defender :: "int \<Rightarrow> int \<Rightarrow> Color \<Rightarrow> Orientation \<Rightarrow> Token" where
  "Defender r c col ori = \<lparr>row = r, column = c, color = col, destroyed = False, name = defender, orientation = ori\<rparr>"

definition Switch :: "int \<Rightarrow> int \<Rightarrow> Color \<Rightarrow> Orientation \<Rightarrow> Token" where
  "Switch r c col ori = \<lparr>row = r, column = c, color = col, destroyed = False, name = switch, orientation = ori\<rparr>"

definition Laser :: "int \<Rightarrow> int \<Rightarrow> Color \<Rightarrow> Orientation \<Rightarrow> Token" where
  "Laser r c col ori = \<lparr>row = r, column = c, color = col, destroyed = False, name = laser, orientation = ori\<rparr>"

text \<open>The token array of \<^verbatim>\<open>Game.__init__\<close>, in its order (red team, then blue team).\<close>

definition initial_tokens :: "Token list" where
  "initial_tokens =
    [Laser 0 0 red down,
     Queen 0 5 red,
     Defender 0 4 red down,
     Defender 0 6 red down,
     Deflector 0 7 red down,
     Deflector 1 2 red left,
     Deflector 3 0 red right,
     Deflector 3 7 red down,
     Deflector 4 0 red down,
     Deflector 4 7 red right,
     Deflector 5 6 red down,
     Switch 3 4 red right,
     Switch 3 5 red down,
     Laser 7 9 blue up,
     Queen 7 4 blue,
     Defender 7 3 blue up,
     Defender 7 5 blue up,
     Deflector 7 2 blue up,
     Deflector 6 7 blue right,
     Deflector 4 2 blue up,
     Deflector 4 9 blue left,
     Deflector 3 2 blue left,
     Deflector 3 9 blue up,
     Deflector 2 3 blue up,
     Switch 4 4 blue up,
     Switch 4 5 blue left]"

text \<open>\<^verbatim>\<open>laser_dict\<close>: the red laser is element 0 of the array, the blue laser element 13.\<close>

definition laser_dict :: "Color \<Rightarrow> nat option" where
  "laser_dict c = (case c of blue \<Rightarrow> Some 13 | red \<Rightarrow> Some 0 | none \<Rightarrow> None)"

text \<open>\<^verbatim>\<open>arrangeTokens\<close>: every token is written into the square at its coordinates, in array order.\<close>

fun arrangeTokens :: "Token list \<Rightarrow> nat \<Rightarrow> (int \<times> int \<Rightarrow> nat option) \<Rightarrow> (int \<times> int \<Rightarrow> nat option)" where
  "arrangeTokens [] i b = b"
| "arrangeTokens (t # ts) i b = arrangeTokens ts (Suc i) (b((row t, column t) := Some i))"

definition Game_init :: Game where
  "Game_init = \<lparr>inhabiting_token = arrangeTokens initial_tokens 0 (\<lambda>sq. None),
                highlighted = (\<lambda>sq. False),
                game_log = [],
                positions_log = [],
                turn = 0,
                tokens = initial_tokens\<rparr>"


section \<open>Tokens\<close>

text \<open>\<^verbatim>\<open>Token.move\<close>: the token takes the coordinates of the end square; the start square is
  cleared first, then the end square is given the token.\<close>

definition move_token :: "Game \<Rightarrow> nat \<Rightarrow> int \<times> int \<Rightarrow> int \<times> int \<Rightarrow> Game" where
  "move_token g t start_square end_square =
     g\<lparr>tokens := (tokens g)[t := (tokens g ! t)\<lparr>row := fst end_square, column := snd end_square\<rparr>],
       inhabiting_token := ((inhabiting_token g)(start_square := None))(end_square := Some t)\<rparr>"

text \<open>\<^verbatim>\<open>RotatableToken.changeOrientation\<close>.\<close>

definition changeOrientation :: "Token \<Rightarrow> Orientation \<Rightarrow> Token" where
  "changeOrientation tok ori = tok\<lparr>orientation := Orientation_of (value_of ori mod 4)\<rparr>"

text \<open>\<^verbatim>\<open>getPossibleRotations\<close> of the classes Queen, Deflector, Defender, Switch and Laser.\<close>

definition getPossibleRotations :: "Token \<Rightarrow> Orientation list" where
  "getPossibleRotations tok = (case name tok of
      queen \<Rightarrow> []
    | deflector \<Rightarrow> [Orientation_of ((value_of (orientation tok) - 1) mod 4),
                    Orientation_of ((value_of (orientation tok) + 1) mod 4)]
    | defender \<Rightarrow> [Orientation_of ((value_of (orientation tok) - 1) mod 4),
                   Orientation_of ((value_of (orientation tok) + 1) mod 4)]
    | switch \<Rightarrow> [Orientation_of (1 - value_of (orientation tok) mod 2)]
    | laser \<Rightarrow> [case orientation tok of right \<Rightarrow> down | down \<Rightarrow> right | left \<Rightarrow> up | up \<Rightarrow> left])"

text \<open>
  \<^verbatim>\<open>rotateClockwise\<close> and \<^verbatim>\<open>rotateAntiClockwise\<close>: the methods of \<^verbatim>\<open>RotatableToken\<close>, overridden
  by \<^verbatim>\<open>Laser\<close>. \<^verbatim>\<open>Queen\<close> derives from \<^verbatim>\<open>Token\<close> and has neither method: the call raises
  \<^verbatim>\<open>AttributeError\<close>.
\<close>

definition rotateClockwise :: "Token \<Rightarrow> error + Token" where
  "rotateClockwise tok = (case name tok of
      queen \<Rightarrow> Inl AttributeError
    | laser \<Rightarrow> Inr (tok\<lparr>orientation := getPossibleRotations tok ! 0\<rparr>)
    | _ \<Rightarrow> Inr (tok\<lparr>orientation := Orientation_of ((value_of (orientation tok) - 1) mod 4)\<rparr>))"

definition rotateAntiClockwise :: "Token \<Rightarrow> error + Token" where
  "rotateAntiClockwise tok = (case name tok of
      queen \<Rightarrow> Inl AttributeError
    | laser \<Rightarrow> Inr (tok\<lparr>orientation := getPossibleRotations tok ! 0\<rparr>)
    | _ \<Rightarrow> Inr (tok\<lparr>orientation := Orientation_of ((value_of (orientation tok) + 1) mod 4)\<rparr>))"

section \<open>The game engine\<close>

text \<open>\<^verbatim>\<open>Game.getPossibleMoves\<close> for a token object (the \<^verbatim>\<open>None\<close> argument is the controller's
  business): the 3 x 3 neighbourhood in row-major order, the token's own square included.\<close>

definition getPossibleMoves :: "Game \<Rightarrow> Token \<Rightarrow> (int \<times> int) list" where
  "getPossibleMoves g tok =
     (if name tok = laser then []
      else concat (map (\<lambda>i. concat (map (\<lambda>j.
             let r = row tok + i; c = column tok + j in
             if r < 0 \<or> r > 7 \<or> c < 0 \<or> c > 9 then []
             else if inhabiting_token g (r, c) = None \<and>
                     (square_color (r, c) = none \<or> square_color (r, c) = color tok)
                  then [(r, c)] else [])
           [-1, 0, 1])) [-1, 0, 1]))"

text \<open>\<^verbatim>\<open>Game.getAllPossibleActions\<close>: for every token that is not destroyed and has the colour,
  its moves and then its rotations.\<close>

definition getAllPossibleActions :: "Game \<Rightarrow> Color \<Rightarrow> action list" where
  "getAllPossibleActions g c =
     concat (map (\<lambda>t. let tok = tokens g ! t in
                      if \<not> destroyed tok \<and> color tok = c
                      then map (move t) (getPossibleMoves g tok) @
                           map (rotation t) (getPossibleRotations tok)
                      else [])
                 [0 ..< length (tokens g)])"

text \<open>\<^verbatim>\<open>Game.moveToken\<close> and \<^verbatim>\<open>Game.rotateToken\<close>, with the \<^verbatim>\<open>forward\<close> flag that decides
  whether the event is logged.\<close>

definition moveToken :: "Game \<Rightarrow> nat \<Rightarrow> int \<times> int \<Rightarrow> bool \<Rightarrow> Game" where
  "moveToken g t end_square forward =
     (let start_square = (row (tokens g ! t), column (tokens g ! t));
          g1 = move_token g t start_square end_square
      in if forward then g1\<lparr>game_log := game_log g1 @ [move_event t start_square]\<rparr> else g1)"

definition rotateToken :: "Game \<Rightarrow> nat \<Rightarrow> Orientation \<Rightarrow> bool \<Rightarrow> Game" where
  "rotateToken g t ori forward =
     (let start_orientation = orientation (tokens g ! t);
          g1 = g\<lparr>tokens := (tokens g)[t := changeOrientation (tokens g ! t) ori]\<rparr>
      in if forward then g1\<lparr>game_log := game_log g1 @ [rotation_event t start_orientation]\<rparr> else g1)"

text \<open>\<^verbatim>\<open>Game.doAction\<close>.\<close>

fun doAction :: "Game \<Rightarrow> action \<Rightarrow> Game" where
  "doAction g (move t square) = moveToken g t square True"
| "doAction g (rotation t ori) = rotateToken g t ori True"

text \<open>
  \<^verbatim>\<open>Game.undoLastEvent\<close>: \<^verbatim>\<open>log.pop()\<close> raises \<^verbatim>\<open>IndexError\<close> on the empty log. A destruction
  event resets the \<^verbatim>\<open>destroyed\<close> attribute of the token and undoes the next event too.
\<close>

function undoLastEvent :: "Game \<Rightarrow> error + Game" where
  "undoLastEvent g =
     (if game_log g = [] then Inl IndexError
      else let event = last (game_log g);
               g1 = g\<lparr>game_log := butlast (game_log g)\<rparr>
           in case event of
                move_event t square \<Rightarrow> Inr (moveToken g1 t square False)
              | rotation_event t ori \<Rightarrow> Inr (rotateToken g1 t ori False)
              | destruction_event t \<Rightarrow>
                  undoLastEvent (g1\<lparr>tokens := (tokens g1)[t := (tokens g1 ! t)\<lparr>destroyed := False\<rparr>]\<rparr>))"
  by pat_completeness auto
termination
  by (relation "measure (\<lambda>g. length (game_log g))") (auto simp: Let_def)

declare undoLastEvent.simps [simp del]

section \<open>The beam\<close>

text \<open>\<^verbatim>\<open>Game.is_destroyed\<close>. A defender that is not in one of its four listed cases falls
  through to the final \<^verbatim>\<open>return True\<close>; the last branch serves every other name.\<close>

definition is_destroyed :: "Token \<Rightarrow> Orientation \<Rightarrow> bool" where
  "is_destroyed tok direction =
     (let ori = orientation tok in
      if name tok = queen then True
      else if name tok = switch then False
      else if name tok = defender then
        (if direction = right \<and> ori = left \<or> direction = left \<and> ori = right
            \<or> direction = up \<and> ori = down \<or> direction = down \<and> ori = up
         then False else True)
      else
        (if direction = right \<and> ori = left \<or> direction = right \<and> ori = up
            \<or> direction = left \<and> ori = right \<or> direction = left \<and> ori = down
            \<or> direction = up \<and> ori = down \<or> direction = up \<and> ori = left
            \<or> direction = down \<and> ori = up \<or> direction = down \<and> ori = right
         then False else True))"

text \<open>
  The four \<^verbatim>\<open>while\<close> loops of \<^verbatim>\<open>Game.reflect_beam\<close>. The loops for \<^verbatim>\<open>up\<close> and \<^verbatim>\<open>down\<close> step the
  row and return the token found and the last row. The loops for \<^verbatim>\<open>left\<close> and \<^verbatim>\<open>right\<close> do not
  change \<^verbatim>\<open>col\<close>: they read the same square again and may never exit, which is the value
  \<open>None\<close>.
\<close>

function scan_up :: "Game \<Rightarrow> int \<Rightarrow> int \<Rightarrow> nat option \<Rightarrow> nat option \<times> int" where
  "scan_up g r c token_hit =
     (if token_hit = None \<and> r > -1 then scan_up g (r - 1) c (inhabiting_token g (r, c))
      else (token_hit, r))"
  by pat_completeness auto
termination
  by (relation "measure (\<lambda>(g, r, c, token_hit). nat (r + 1))") auto

function scan_down :: "Game \<Rightarrow> int \<Rightarrow> int \<Rightarrow> nat option \<Rightarrow> nat option \<times> int" where
  "scan_down g r c token_hit =
     (if token_hit = None \<and> r < 8 then scan_down g (r + 1) c (inhabiting_token g (r, c))
      else (token_hit, r))"
  by pat_completeness auto
termination
  by (relation "measure (\<lambda>(g, r, c, token_hit). nat (8 - r))") auto

partial_function (option) scan_left :: "Game \<Rightarrow> int \<Rightarrow> int \<Rightarrow> nat option \<Rightarrow> nat option option" where
  "scan_left g r c token_hit =
     (if token_hit = None \<and> c > -1 then scan_left g r c (inhabiting_token g (r, c))
      else Some token_hit)"

partial_function (option) scan_right :: "Game \<Rightarrow> int \<Rightarrow> int \<Rightarrow> nat option \<Rightarrow> nat option option" where
  "scan_right g r c token_hit =
     (if token_hit = None \<and> c < 11 then scan_right g r c (inhabiting_token g (r, c))
      else Some token_hit)"

declare scan_up.simps [simp del] scan_down.simps [simp del]

declare scan_left.simps [code] scan_right.simps [code]

text \<open>The loop chosen by the direction, from the square of the reflecting token: the token
  found (if any) and the final \<^verbatim>\<open>row\<close> and \<^verbatim>\<open>col\<close>; \<open>None\<close> when the loop does not exit.\<close>

definition beam_scan :: "Game \<Rightarrow> Token \<Rightarrow> Orientation \<Rightarrow> (nat option \<times> int \<times> int) option" where
  "beam_scan g tok direction =
     (let c = column tok; r = row tok in
      if direction = up then
        (case scan_up g r c None of (token_hit, r') \<Rightarrow> Some (token_hit, r', c))
      else if direction = down then
        (case scan_down g r c None of (token_hit, r') \<Rightarrow> Some (token_hit, r', c))
      else if direction = left then
        (case scan_left g r c None of None \<Rightarrow> None
         | Some token_hit \<Rightarrow> Some (token_hit, r, c))
      else
        (case scan_right g r c None of None \<Rightarrow> None
         | Some token_hit \<Rightarrow> Some (token_hit, r, c)))"

text \<open>
  \<^verbatim>\<open>Game.hitToken\<close>, \<^verbatim>\<open>Game.reflect\<close> and \<^verbatim>\<open>Game.reflect_beam\<close> call each other. The first
  argument bounds the number of nested \<^verbatim>\<open>hitToken\<close> calls (the recursion limit of the
  interpreter): beyond it the result is \<open>RecursionError\<close>.
\<close>

fun hitToken :: "nat \<Rightarrow> Game \<Rightarrow> nat \<Rightarrow> Orientation \<Rightarrow> error + Game"
  and reflect :: "nat \<Rightarrow> Game \<Rightarrow> nat \<Rightarrow> Orientation \<Rightarrow> error + Game"
  and reflect_beam :: "nat \<Rightarrow> Game \<Rightarrow> nat \<Rightarrow> Orientation \<Rightarrow> error + Game" where
  "hitToken 0 g token_hit ori = Inl RecursionError"
| "hitToken (Suc n) g token_hit ori =
     (let tok = tokens g ! token_hit;
          g1 = g\<lparr>positions_log := positions_log g @ [position (row tok) (column tok)]\<rparr>
      in if is_destroyed tok ori = True then
           Inr (g1\<lparr>tokens := (tokens g1)[token_hit := tok\<lparr>destroyed := True\<rparr>],
                   inhabiting_token := (inhabiting_token g1)((row tok, column tok) := None),
                   positions_log := positions_log g1 @ [destroyed_mark],
                   game_log := game_log g1 @ [destruction_event token_hit]\<rparr>)
         else reflect n g1 token_hit ori)"
| "reflect n g t direction =
     (let ori = orientation (tokens g ! t); nm = name (tokens g ! t) in
      if nm = switch then
        (if direction = right then
           (if ori = left \<or> ori = right then reflect_beam n g t down else reflect_beam n g t up)
         else if direction = left then
           (if ori = left \<or> ori = right then reflect_beam n g t up else reflect_beam n g t down)
         else if direction = up then
           (if ori = left \<or> ori = right then reflect_beam n g t left else reflect_beam n g t right)
         else
           (if ori = left \<or> ori = right then reflect_beam n g t right else reflect_beam n g t left))
      else if nm = deflector then
        (if direction = right then
           (if ori = left then reflect_beam n g t down else reflect_beam n g t up)
         else if direction = left then
           (if ori = right then reflect_beam n g t up else reflect_beam n g t down)
         else if direction = up then
           (if ori = left then reflect_beam n g t left else reflect_beam n g t right)
         else
           (if ori = right then reflect_beam n g t right else reflect_beam n g t left))
      else Inr g)"
| "reflect_beam n g t direction =
     (case beam_scan g (tokens g ! t) direction of
        None \<Rightarrow> Inl NonTermination
      | Some (token_hit, r, c) \<Rightarrow>
          (case token_hit of
             Some th \<Rightarrow> hitToken n g th direction
           | None \<Rightarrow> Inr (g\<lparr>positions_log := positions_log g @ [position r c, out]\<rparr>)))"


text \<open>The \<^verbatim>\<open>for\<close> loops of \<^verbatim>\<open>Game.activate_laser\<close>: every square of the line of fire is visited
  and read while no token has been found.\<close>

definition line_of_fire :: "Game \<Rightarrow> (int \<times> int) list \<Rightarrow> nat option" where
  "line_of_fire g squares =
     fold (\<lambda>sq token_hit. if token_hit = None then inhabiting_token g sq else token_hit) squares None"

text \<open>\<^verbatim>\<open>Game.activate_laser\<close>. \<^verbatim>\<open>laser_dict[color]\<close> raises \<^verbatim>\<open>KeyError\<close> for \<^verbatim>\<open>Color.none\<close>.\<close>

definition activate_laser :: "nat \<Rightarrow> Game \<Rightarrow> Color \<Rightarrow> error + Game" where
  "activate_laser n g c =
     (case laser_dict c of
        None \<Rightarrow> Inl KeyError
      | Some l \<Rightarrow>
         (let lsr = tokens g ! l;
              r = row lsr;
              col = column lsr;
              g1 = g\<lparr>positions_log := [position r col]\<rparr>;
              ori = orientation lsr;
              (last_position, token_hit) =
                (if color lsr = red then
                   (if ori = down
                    then (position 7 col, line_of_fire g1 (map (\<lambda>i. (r + i, col)) [1, 2, 3, 4, 5, 6, 7]))
                    else (position r 9, line_of_fire g1 (map (\<lambda>i. (r, col + i)) [1, 2, 3, 4, 5, 6, 7, 8, 9])))
                 else
                   (if ori = up
                    then (position 0 col, line_of_fire g1 (map (\<lambda>i. (r - i, col)) [1, 2, 3, 4, 5, 6, 7]))
                    else (position r 0, line_of_fire g1 (map (\<lambda>i. (r, col - i)) [1, 2, 3, 4, 5, 6, 7, 8, 9]))))
          in case token_hit of
               Some th \<Rightarrow> hitToken n g1 th ori
             | None \<Rightarrow> Inr (g1\<lparr>positions_log := positions_log g1 @ [last_position, out]\<rparr>)))"


section \<open>The search\<close>

text \<open>
  The attributes of an \<^verbatim>\<open>AI\<close> player that the search reads: its colour, the adversary's
  colour, the depth limit, the array of token names taken at construction and the dictionary
  \<^verbatim>\<open>queen_index\<close>. The game it holds is passed to every function and returned by those
  that change it. Evaluations are Python floats in the source; they are modelled by exact
  rational numbers.
\<close>

record AI =
  ai_color :: Color
  adversial_color :: Color
  depth_limit :: int
  names :: "Kind list"
  queen_index :: "Color \<Rightarrow> nat option"

text \<open>The first index of an element that satisfies a predicate (\<^verbatim>\<open>np.argwhere(...)[0][0]\<close>).\<close>

fun first_index :: "('a \<Rightarrow> bool) \<Rightarrow> 'a list \<Rightarrow> nat option" where
  "first_index P [] = None"
| "first_index P (x # xs) = (if P x then Some 0 else map_option Suc (first_index P xs))"

text \<open>\<^verbatim>\<open>AI.__init__\<close>: indexing the empty result of \<^verbatim>\<open>argwhere\<close> raises \<^verbatim>\<open>IndexError\<close> when a
  colour has no queen.\<close>

definition AI_init :: "Game \<Rightarrow> Color \<Rightarrow> int \<Rightarrow> error + AI" where
  "AI_init g c limit =
     (let q = (\<lambda>col. first_index (\<lambda>t. name t = queen \<and> color t = col) (tokens g)) in
      case q blue of None \<Rightarrow> Inl IndexError
      | Some b \<Rightarrow>
         (case q red of None \<Rightarrow> Inl IndexError
          | Some r \<Rightarrow>
              Inr \<lparr>ai_color = c,
                   adversial_color = (if c = red then blue else red),
                   depth_limit = limit,
                   names = map name (tokens g),
                   queen_index = (\<lambda>col. case col of blue \<Rightarrow> Some b | red \<Rightarrow> Some r | none \<Rightarrow> None)\<rparr>))"

text \<open>\<^verbatim>\<open>AI.distance_to_queen\<close>; the warning it may print is not modelled.\<close>

definition distance_to_queen :: "AI \<Rightarrow> Token \<Rightarrow> Token list \<Rightarrow> error + int" where
  "distance_to_queen ai token toks =
     (case queen_index ai (color token) of
        None \<Rightarrow> Inl KeyError
      | Some q \<Rightarrow>
          (let qn = toks ! q;
               distance = \<bar>row token - row qn\<bar> + \<bar>column token - column qn\<bar>
           in Inr (max 1 distance)))"

text \<open>The selection \<^verbatim>\<open>tokens[self.names == k]\<close> by a boolean mask.\<close>

definition tokens_named :: "AI \<Rightarrow> Kind \<Rightarrow> Token list \<Rightarrow> Token list" where
  "tokens_named ai k toks = map snd (filter (\<lambda>(n, t). n = k) (zip (names ai) toks))"

text \<open>The two loops of \<^verbatim>\<open>AI.evaluate_state\<close>, over the defenders and over the deflectors.\<close>

fun defender_loop :: "AI \<Rightarrow> Token list \<Rightarrow> Token list \<Rightarrow> rat \<Rightarrow> error + rat" where
  "defender_loop ai toks [] val = Inr val"
| "defender_loop ai toks (d # ds) val =
     (if \<not> destroyed d then
        (let f = (if color d = ai_color ai then 1 else -1) in
         case distance_to_queen ai d toks of
           Inl e \<Rightarrow> Inl e
         | Inr distance \<Rightarrow> defender_loop ai toks ds (val + f * 10000 / of_int distance))
      else defender_loop ai toks ds val)"

fun deflector_loop :: "AI \<Rightarrow> Token list \<Rightarrow> rat \<Rightarrow> rat" where
  "deflector_loop ai [] val = val"
| "deflector_loop ai (d # ds) val =
     (if \<not> destroyed d then
        (let f = (if color d = ai_color ai then 1 else -1) in
         deflector_loop ai ds (val + f * 75000))
      else deflector_loop ai ds val)"

definition evaluate_state :: "AI \<Rightarrow> Game \<Rightarrow> error + rat" where
  "evaluate_state ai g =
     (let toks = tokens g in
      case queen_index ai (ai_color ai) of
        None \<Rightarrow> Inl KeyError
      | Some q \<Rightarrow>
          if destroyed (toks ! q) then Inr (- 10000000000)
          else
            (case queen_index ai (adversial_color ai) of
               None \<Rightarrow> Inl KeyError
             | Some qa \<Rightarrow>
                 if destroyed (toks ! qa) then Inr 10000000000
                 else
                   (case defender_loop ai toks (tokens_named ai defender toks) 0 of
                      Inl e \<Rightarrow> Inl e
                    | Inr val \<Rightarrow> Inr (deflector_loop ai (tokens_named ai deflector toks) val))))"

text \<open>
  \<^verbatim>\<open>AI.minimax\<close>. The result of a call is the chosen action at depth 0 and the evaluation
  elsewhere. \<open>max_loop\<close> and \<open>min_loop\<close> are the two \<^verbatim>\<open>for\<close> loops over the actions, which carry
  the game, \<^verbatim>\<open>alpha\<close> or \<^verbatim>\<open>beta\<close>, the best evaluation and \<^verbatim>\<open>best_action\<close> (unset at first);
  \<^verbatim>\<open>break\<close> ends the loop. Returning an unset \<^verbatim>\<open>best_action\<close> raises \<^verbatim>\<open>UnboundLocalError\<close>.
  The first number is the recursion limit handed to \<open>activate_laser\<close>.
\<close>

datatype search_result = best_action action | evaluation rat

function minimax :: "AI \<Rightarrow> nat \<Rightarrow> Game \<Rightarrow> nat \<Rightarrow> bool \<Rightarrow> rat \<Rightarrow> rat \<Rightarrow> error + Game \<times> search_result"
  and max_loop :: "AI \<Rightarrow> nat \<Rightarrow> Game \<Rightarrow> nat \<Rightarrow> rat \<Rightarrow> rat \<Rightarrow> action list \<Rightarrow> rat \<Rightarrow> action option
                     \<Rightarrow> error + Game \<times> rat \<times> action option"
  and min_loop :: "AI \<Rightarrow> nat \<Rightarrow> Game \<Rightarrow> nat \<Rightarrow> rat \<Rightarrow> rat \<Rightarrow> action list \<Rightarrow> rat \<Rightarrow> action option
                     \<Rightarrow> error + Game \<times> rat \<times> action option" where
  "minimax ai n g depth max_plays alpha beta =
     (if int depth > depth_limit ai then
        (case evaluate_state ai g of Inl e \<Rightarrow> Inl e | Inr v \<Rightarrow> Inr (g, evaluation v))
      else
        (case (if max_plays
               then max_loop ai n g depth alpha beta (getAllPossibleActions g (ai_color ai))
                      (- 20000000000) None
               else min_loop ai n g depth alpha beta (getAllPossibleActions g (adversial_color ai))
                      20000000000 None) of
           Inl e \<Rightarrow> Inl e
         | Inr (g', final_eval, best) \<Rightarrow>
             if depth = 0 then
               (case best of None \<Rightarrow> Inl UnboundLocalError | Some a \<Rightarrow> Inr (g', best_action a))
             else Inr (g', evaluation final_eval)))"
| "max_loop ai n g depth alpha beta [] max_evaluation best = Inr (g, max_evaluation, best)"
| "max_loop ai n g depth alpha beta (a # as) max_evaluation best =
     (case activate_laser n (doAction g a) (ai_color ai) of
        Inl e \<Rightarrow> Inl e
      | Inr g1 \<Rightarrow>
         (case minimax ai n g1 (depth + 1) False alpha beta of
            Inl e \<Rightarrow> Inl e
          | Inr (g2, best_action x) \<Rightarrow> Inl TypeError
          | Inr (g2, evaluation ev) \<Rightarrow>
             (case undoLastEvent g2 of
                Inl e \<Rightarrow> Inl e
              | Inr g3 \<Rightarrow>
                 (let max_evaluation' = (if ev > max_evaluation then ev else max_evaluation);
                      best' = (if ev > max_evaluation then Some a else best);
                      alpha' = max alpha ev
                  in if beta < alpha' then Inr (g3, max_evaluation', best')
                     else max_loop ai n g3 depth alpha' beta as max_evaluation' best'))))"
| "min_loop ai n g depth alpha beta [] min_evaluation best = Inr (g, min_evaluation, best)"
| "min_loop ai n g depth alpha beta (a # as) min_evaluation best =
     (case activate_laser n (doAction g a) (adversial_color ai) of
        Inl e \<Rightarrow> Inl e
      | Inr g1 \<Rightarrow>
         (case minimax ai n g1 (depth + 1) True alpha beta of
            Inl e \<Rightarrow> Inl e
          | Inr (g2, best_action x) \<Rightarrow> Inl TypeError
          | Inr (g2, evaluation ev) \<Rightarrow>
             (case undoLastEvent g2 of
                Inl e \<Rightarrow> Inl e
              | Inr g3 \<Rightarrow>
                 (let min_evaluation' = (if ev < min_evaluation then ev else min_evaluation);
                      best' = (if ev < min_evaluation then Some a else best);
                      beta' = min beta ev
                  in if beta' < alpha then Inr (g3, min_evaluation', best')
                     else min_loop ai n g3 depth alpha beta' as min_evaluation' best'))))"
  by pat_completeness auto
termination
  by (relation "inv_image (less_than <*lex*> less_than)
        (\<lambda>x. case x of
           Inl (ai, n, g, depth, max_plays, alpha, beta) \<Rightarrow>
             (2 * nat (depth_limit ai + 1 - int depth), 0)
         | Inr (Inl (ai, n, g, depth, alpha, beta, as, ev, best)) \<Rightarrow>
             (2 * nat (depth_limit ai + 1 - int depth) - 1, length as)
         | Inr (Inr (ai, n, g, depth, alpha, beta, as, ev, best)) \<Rightarrow>
             (2 * nat (depth_limit ai + 1 - int depth) - 1, length as))")
     (auto split: if_splits)

declare minimax.simps [simp del]


section \<open>The controller (\<^verbatim>\<open>laser_controller.py\<close>)\<close>

text \<open>
  The state of a \<^verbatim>\<open>GameController\<close> after \<^verbatim>\<open>start\<close>: the game and the selected token. The
  clients it refreshes and what it prints are not modelled.
\<close>

record GameController =
  game :: Game
  selected_token :: "nat option"

definition start :: GameController where
  "start = \<lparr>game = Game_init, selected_token = None\<rparr>"

text \<open>Indexing a Python list of length \<open>n\<close>: a negative index counts from the end, an index
  outside \<open>-n..n-1\<close> raises \<^verbatim>\<open>IndexError\<close>.\<close>

definition list_index :: "int \<Rightarrow> int \<Rightarrow> error + int" where
  "list_index n i = (if 0 \<le> i \<and> i < n then Inr i
                     else if - n \<le> i \<and> i < 0 then Inr (i + n) else Inl IndexError)"

definition getCurrentPlayerColor :: "GameController \<Rightarrow> Color" where
  "getCurrentPlayerColor ctl = (if turn (game ctl) mod 2 = 0 then red else blue)"

definition unhighlightAllSquares :: "Game \<Rightarrow> Game" where
  "unhighlightAllSquares g = g\<lparr>highlighted := (\<lambda>sq. False)\<rparr>"

text \<open>\<^verbatim>\<open>GameController.finishTurn\<close>: the laser of the colour given by the parity of the turn
  counter is activated, then the counter is incremented.\<close>

definition finishTurn :: "nat \<Rightarrow> GameController \<Rightarrow> error + GameController" where
  "finishTurn n ctl =
     (let c = (if turn (game ctl) mod 2 = 0 then red else blue) in
      case activate_laser n (game ctl) c of
        Inl e \<Rightarrow> Inl e
      | Inr g \<Rightarrow> Inr (ctl\<lparr>game := g\<lparr>turn := turn g + 1\<rparr>\<rparr>))"

text \<open>\<^verbatim>\<open>GameController.squareSelected\<close>. Moving with no selected token raises
  \<^verbatim>\<open>AttributeError\<close> (\<^verbatim>\<open>token.row\<close> of \<^verbatim>\<open>None\<close>).\<close>

definition squareSelected :: "nat \<Rightarrow> GameController \<Rightarrow> int \<Rightarrow> int \<Rightarrow> error + GameController" where
  "squareSelected n ctl r c =
     (case list_index 8 r of Inl e \<Rightarrow> Inl e | Inr r' \<Rightarrow>
     (case list_index 10 c of Inl e \<Rightarrow> Inl e | Inr c' \<Rightarrow>
        if highlighted (game ctl) (r', c') then
          (case selected_token ctl of
             None \<Rightarrow> Inl AttributeError
           | Some t \<Rightarrow>
              (case finishTurn n (ctl\<lparr>game := moveToken (game ctl) t (r', c') True\<rparr>) of
                 Inl e \<Rightarrow> Inl e
               | Inr ctl1 \<Rightarrow>
                   Inr (ctl1\<lparr>game := unhighlightAllSquares (game ctl1), selected_token := None\<rparr>)))
        else
          (let g1 = unhighlightAllSquares (game ctl);
               ctl1 = ctl\<lparr>game := g1, selected_token := inhabiting_token g1 (r', c')\<rparr>
           in case selected_token ctl1 of
                None \<Rightarrow> Inr ctl1
              | Some t \<Rightarrow>
                  if color (tokens g1 ! t) = getCurrentPlayerColor ctl1
                  then Inr (ctl1\<lparr>selected_token := None\<rparr>)
                  else Inr (ctl1\<lparr>game := g1\<lparr>highlighted :=
                              fold (\<lambda>possible_move h. h(possible_move := True))
                                   (getPossibleMoves g1 (tokens g1 ! t)) (highlighted g1)\<rparr>\<rparr>))))"

section \<open>Play and reachable states\<close>

text \<open>
  A run of plies as \<^verbatim>\<open>GameController.test_AI\<close> plays them, for a given list of actions: the
  colour to move is red on an even turn counter and blue on an odd one; the action must be
  one of \<^verbatim>\<open>getAllPossibleActions\<close> for that colour (otherwise the list is no run: \<open>None\<close>); it
  is done, \<^verbatim>\<open>finishTurn\<close> activates the laser of that colour and increments the counter.
\<close>

fun play :: "nat \<Rightarrow> Game \<Rightarrow> action list \<Rightarrow> (error + Game) option" where
  "play n g [] = Some (Inr g)"
| "play n g (a # as) =
     (let c = (if turn g mod 2 = 0 then red else blue) in
      if a \<in> set (getAllPossibleActions g c) then
        (case activate_laser n (doAction g a) c of
           Inl e \<Rightarrow> Some (Inl e)
         | Inr g' \<Rightarrow> play n (g'\<lparr>turn := turn g' + 1\<rparr>) as)
      else None)"

text \<open>
  The game states that the operations of the engine and of the controller can produce from
  a new game: a possible action of either colour (the search, \<^verbatim>\<open>test_AI\<close>), an activation of
  a laser that returns, an undo that returns, a move of the token of a square to one of its
  possible moves (\<^verbatim>\<open>squareSelected\<close>), a rotation of the token of a square
  (\<^verbatim>\<open>rotateSelectedTokenClockwise\<close>, \<^verbatim>\<open>rotateSelectedTokenAntiClockwise\<close>), a step of the turn
  counter and any change of the highlights.
\<close>

inductive reachable :: "Game \<Rightarrow> bool" where
  new_game: "reachable Game_init"
| action: "reachable g \<Longrightarrow> a \<in> set (getAllPossibleActions g c) \<Longrightarrow> reachable (doAction g a)"
| beam: "reachable g \<Longrightarrow> activate_laser n g c = Inr g' \<Longrightarrow> reachable g'"
| undo: "reachable g \<Longrightarrow> undoLastEvent g = Inr g' \<Longrightarrow> reachable g'"
| selected_move: "reachable g \<Longrightarrow> inhabiting_token g sq = Some t \<Longrightarrow>
     sq' \<in> set (getPossibleMoves g (tokens g ! t)) \<Longrightarrow> reachable (moveToken g t sq' True)"
| selected_clockwise: "reachable g \<Longrightarrow> inhabiting_token g sq = Some t \<Longrightarrow>
     rotateClockwise (tokens g ! t) = Inr tok \<Longrightarrow> reachable (g\<lparr>tokens := (tokens g)[t := tok]\<rparr>)"
| selected_anticlockwise: "reachable g \<Longrightarrow> inhabiting_token g sq = Some t \<Longrightarrow>
     rotateAntiClockwise (tokens g ! t) = Inr tok \<Longrightarrow> reachable (g\<lparr>tokens := (tokens g)[t := tok]\<rparr>)"
| next_turn: "reachable g \<Longrightarrow> reachable (g\<lparr>turn := turn g + 1\<rparr>)"
| highlight: "reachable g \<Longrightarrow> reachable (g\<lparr>highlighted := h\<rparr>)"

section \<open>The static evaluation as the specification words it\<close>





section \<open>Notions used in the proofs\<close>

text \<open>The effect of the destroying branch of \<^verbatim>\<open>hitToken\<close> on everything but \<^verbatim>\<open>positions_log\<close>.\<close>

definition destroy :: "Game \<Rightarrow> nat \<Rightarrow> Game" where
  "destroy g t = g\<lparr>tokens := (tokens g)[t := (tokens g ! t)\<lparr>destroyed := True\<rparr>],
                   inhabiting_token := (inhabiting_token g)((row (tokens g ! t), column (tokens g ! t)) := None),
                   game_log := game_log g @ [destruction_event t]\<rparr>"

text \<open>
  The invariant behind the survival of the lasers: the two corner squares of the lasers,
  the coordinates of a token, and four properties of a game state. The lasers are elements
  0 and 13 of the array, of their colours and not destroyed; they stand on their corners and
  every token that inhabits a square has the coordinates of that square; no other token has
  the coordinates of a corner; a move event of the log concerns another token and another
  square.
\<close>

definition laser_square :: "int \<times> int \<Rightarrow> bool" where
  "laser_square sq \<longleftrightarrow> sq = (0, 0) \<or> sq = (7, 9)"

definition position_of :: "Game \<Rightarrow> nat \<Rightarrow> int \<times> int" where
  "position_of g t = (row (tokens g ! t), column (tokens g ! t))"

definition lasers_alive :: "Game \<Rightarrow> bool" where
  "lasers_alive g \<longleftrightarrow>
     13 < length (tokens g) \<and>
     (\<forall>t < length (tokens g). (name (tokens g ! t) = laser) = (t = 0 \<or> t = 13)) \<and>
     color (tokens g ! 0) = red \<and> color (tokens g ! 13) = blue \<and>
     \<not> destroyed (tokens g ! 0) \<and> \<not> destroyed (tokens g ! 13)"

definition board_consistent :: "Game \<Rightarrow> bool" where
  "board_consistent g \<longleftrightarrow>
     inhabiting_token g (0, 0) = Some 0 \<and> inhabiting_token g (7, 9) = Some 13 \<and>
     (\<forall>sq t. inhabiting_token g sq = Some t \<longrightarrow> t < length (tokens g) \<and> position_of g t = sq)"

definition corners_kept :: "Game \<Rightarrow> bool" where
  "corners_kept g \<longleftrightarrow>
     (\<forall>t < length (tokens g). t \<noteq> 0 \<longrightarrow> t \<noteq> 13 \<longrightarrow> \<not> laser_square (position_of g t))"

definition log_moves_safe :: "Game \<Rightarrow> bool" where
  "log_moves_safe g \<longleftrightarrow>
     (\<forall>t sq. move_event t sq \<in> set (game_log g) \<longrightarrow>
        t < length (tokens g) \<and> t \<noteq> 0 \<and> t \<noteq> 13 \<and> \<not> laser_square sq)"

definition laser_invariant :: "Game \<Rightarrow> bool" where
  "laser_invariant g \<longleftrightarrow> lasers_alive g \<and> board_consistent g \<and> corners_kept g \<and> log_moves_safe g"

text \<open>
  The squares of the 8 x 10 board, and the game states in which every token has the
  coordinates of a square of the board and every move event of the log names a token of the
  array and a square of the board.
\<close>

definition in_grid :: "int \<times> int \<Rightarrow> bool" where
  "in_grid sq \<longleftrightarrow> 0 \<le> fst sq \<and> fst sq \<le> 7 \<and> 0 \<le> snd sq \<and> snd sq \<le> 9"

definition tokens_in_grid :: "Game \<Rightarrow> bool" where
  "tokens_in_grid g \<longleftrightarrow>
     (\<forall>t < length (tokens g). in_grid (position_of g t)) \<and>
     (\<forall>t sq. move_event t sq \<in> set (game_log g) \<longrightarrow> t < length (tokens g) \<and> in_grid sq)"

text \<open>
  A game state outside play, used to look at a search node without legal actions: every
  token of one colour is marked destroyed and taken off its square.
\<close>

definition all_destroyed :: "Color \<Rightarrow> Game \<Rightarrow> Game" where
  "all_destroyed c g =
     g\<lparr>tokens := map (\<lambda>t. if color t = c then t\<lparr>destroyed := True\<rparr> else t) (tokens g),
       inhabiting_token := (\<lambda>sq. case inhabiting_token g sq of
                                   None \<Rightarrow> None
                                 | Some t \<Rightarrow> if color (tokens g ! t) = c then None else Some t)\<rparr>"

section \<open>A beam scanned from an occupied square\<close>

text \<open>
  \<^verbatim>\<open>reflect_beam\<close> starts each loop at the square of the reflecting token. When that square holds
  the token, the first read finds it: the beam strikes the reflecting token again, from the
  new direction. On an empty square the loops for left and right never exit.
\<close>

lemma scan_up_found: "scan_up g r c (Some t) = (Some t, r)"
  by (subst scan_up.simps) simp

lemma scan_down_found: "scan_down g r c (Some t) = (Some t, r)"
  by (subst scan_down.simps) simp

lemma scan_left_found: "scan_left g r c (Some t) = Some (Some t)"
  by (subst scan_left.simps) simp

lemma scan_right_found: "scan_right g r c (Some t) = Some (Some t)"
  by (subst scan_right.simps) simp

lemma scan_up_own:
  "inhabiting_token g (r, c) = Some t \<Longrightarrow>
     scan_up g r c None = (if r > -1 then (Some t, r - 1) else (None, r))"
  by (subst scan_up.simps) (simp add: scan_up_found)

lemma scan_down_own:
  "inhabiting_token g (r, c) = Some t \<Longrightarrow>
     scan_down g r c None = (if r < 8 then (Some t, r + 1) else (None, r))"
  by (subst scan_down.simps) (simp add: scan_down_found)

lemma scan_left_own:
  "inhabiting_token g (r, c) = Some t \<Longrightarrow>
     scan_left g r c None = (if c > -1 then Some (Some t) else Some None)"
  by (subst scan_left.simps) (simp add: scan_left_found)

lemma scan_right_own:
  "inhabiting_token g (r, c) = Some t \<Longrightarrow>
     scan_right g r c None = (if c < 11 then Some (Some t) else Some None)"
  by (subst scan_right.simps) (simp add: scan_right_found)

lemma beam_scan_own:
  assumes "inhabiting_token g (row tok, column tok) = Some t"
  shows "beam_scan g tok d =
     Some (if d = up then (if row tok > -1 then (Some t, row tok - 1, column tok) else (None, row tok, column tok))
           else if d = down then (if row tok < 8 then (Some t, row tok + 1, column tok) else (None, row tok, column tok))
           else if d = left then (if column tok > -1 then (Some t, row tok, column tok) else (None, row tok, column tok))
           else (if column tok < 11 then (Some t, row tok, column tok) else (None, row tok, column tok)))"
  using assms
  by (simp add: beam_scan_def scan_up_own scan_down_own scan_left_own scan_right_own)

lemma scan_left_exit:
  assumes "scan_left g r c th = Some y"
  shows "inhabiting_token g (r, c) = None \<and> c > -1 \<longrightarrow> th \<noteq> None"
proof (rule scan_left.raw_induct
        [where P = "\<lambda>g r c th y. inhabiting_token g (r, c) = None \<and> c > -1 \<longrightarrow> th \<noteq> None", OF _ assms])
  fix f g r c th y
  assume "\<And>g r c th y. f g r c th = Some y \<Longrightarrow> inhabiting_token g (r, c) = None \<and> c > -1 \<longrightarrow> th \<noteq> None"
    and "(if th = None \<and> c > -1 then f g r c (inhabiting_token g (r, c)) else Some th) = Some y"
  from this(1) [of g r c "inhabiting_token g (r, c)" y] this(2)
  show "inhabiting_token g (r, c) = None \<and> c > -1 \<longrightarrow> th \<noteq> None"
    by (auto split: if_splits)
qed

lemma scan_left_empty:
  "inhabiting_token g (r, c) = None \<Longrightarrow> c > -1 \<Longrightarrow> scan_left g r c None = None"
  using scan_left_exit [of g r c None] by (cases "scan_left g r c None") auto

lemma scan_right_exit:
  assumes "scan_right g r c th = Some y"
  shows "inhabiting_token g (r, c) = None \<and> c < 11 \<longrightarrow> th \<noteq> None"
proof (rule scan_right.raw_induct
        [where P = "\<lambda>g r c th y. inhabiting_token g (r, c) = None \<and> c < 11 \<longrightarrow> th \<noteq> None", OF _ assms])
  fix f g r c th y
  assume "\<And>g r c th y. f g r c th = Some y \<Longrightarrow> inhabiting_token g (r, c) = None \<and> c < 11 \<longrightarrow> th \<noteq> None"
    and "(if th = None \<and> c < 11 then f g r c (inhabiting_token g (r, c)) else Some th) = Some y"
  from this(1) [of g r c "inhabiting_token g (r, c)" y] this(2)
  show "inhabiting_token g (r, c) = None \<and> c < 11 \<longrightarrow> th \<noteq> None"
    by (auto split: if_splits)
qed

lemma scan_right_empty:
  "inhabiting_token g (r, c) = None \<Longrightarrow> c < 11 \<Longrightarrow> scan_right g r c None = None"
  using scan_right_exit [of g r c None] by (cases "scan_right g r c None") auto


lemma is_destroyed_switch: "name tok = switch \<Longrightarrow> \<not> is_destroyed tok d"
  by (simp add: is_destroyed_def)

text \<open>A hit on a token that inhabits the square of its coordinates destroys this token or
  leaves the game as it is (the beam path apart), whatever the reflections in between.\<close>

lemma hitToken_own_square:
  "inhabiting_token g (row (tokens g ! t), column (tokens g ! t)) = Some t \<Longrightarrow>
   hitToken n g t d = Inr g' \<Longrightarrow>
   g'\<lparr>positions_log := []\<rparr> = (destroy g t)\<lparr>positions_log := []\<rparr> \<or>
   g'\<lparr>positions_log := []\<rparr> = g\<lparr>positions_log := []\<rparr>"
proof (induction n arbitrary: g d)
  case 0
  then show ?case by simp
next
  case (Suc n)
  let ?tok = "tokens g ! t"
  let ?g1 = "g\<lparr>positions_log := positions_log g @ [position (row ?tok) (column ?tok)]\<rparr>"
  have own: "inhabiting_token ?g1 (row (tokens ?g1 ! t), column (tokens ?g1 ! t)) = Some t"
    using Suc.prems(1) by simp
  have again: "hitToken n ?g1 t d' = Inr g' \<Longrightarrow> ?case" for d'
    using Suc.IH [OF own, of d'] by (auto simp: destroy_def)
  have scan: "reflect_beam n ?g1 t d' = Inr g' \<Longrightarrow> ?case" for d'
    using again [of d'] Suc.prems(1)
    by (auto simp: beam_scan_own split: if_splits)
  show ?case
  proof (cases "is_destroyed ?tok d")
    case True
    with Suc.prems(2) show ?thesis
      by (auto simp: Let_def destroy_def)
  next
    case False
    with Suc.prems(2) have r: "reflect n ?g1 t d = Inr g'"
      by (simp add: Let_def)
    then show ?thesis
      using scan by (auto simp: Let_def split: if_splits)
  qed
qed

text \<open>A switch is not destroyed and reflects, so on its own square it is struck again without
  end: for every recursion limit the hit ends in \<open>RecursionError\<close>.\<close>

lemma hit_switch_never_returns:
  assumes "name (tokens g ! t) = switch"
    and "inhabiting_token g (row (tokens g ! t), column (tokens g ! t)) = Some t"
    and "- 1 < row (tokens g ! t)" "row (tokens g ! t) < 8"
    and "- 1 < column (tokens g ! t)" "column (tokens g ! t) < 11"
  shows "hitToken n g t d = Inl RecursionError"
  using assms
proof (induction n arbitrary: g d)
  case 0
  show ?case by simp
next
  case (Suc n)
  let ?tok = "tokens g ! t"
  let ?g1 = "g\<lparr>positions_log := positions_log g @ [position (row ?tok) (column ?tok)]\<rparr>"
  have again: "hitToken n ?g1 t d' = Inl RecursionError" for d'
    using Suc.prems by (intro Suc.IH) simp_all
  have scan: "beam_scan ?g1 ?tok d' = Some (Some t, (if d' = up then row ?tok - 1 else if d' = down then row ?tok + 1 else row ?tok), column ?tok)" for d'
    using Suc.prems by (simp add: beam_scan_own)
  have beam: "reflect_beam n ?g1 t d' = Inl RecursionError" for d'
    using again [of d'] by (simp add: scan del: hitToken.simps)
  have "reflect n ?g1 t d = Inl RecursionError"
    using Suc.prems(1) by (simp add: beam Let_def del: reflect_beam.simps)
  then show ?case
    using Suc.prems(1) by (simp add: Let_def is_destroyed_switch del: reflect.simps)
qed

text \<open>A deflector on its own square is destroyed by every hit: at once in eight of the sixteen
  cases of direction and orientation, and in the other eight by the beam it reflects, which
  strikes it again from a direction that destroys it.\<close>

lemma hit_deflector_destroys_it:
  assumes "name (tokens g ! t) = deflector"
    and "inhabiting_token g (row (tokens g ! t), column (tokens g ! t)) = Some t"
    and "- 1 < row (tokens g ! t)" "row (tokens g ! t) < 8"
    and "- 1 < column (tokens g ! t)" "column (tokens g ! t) < 11"
  shows "case hitToken (Suc (Suc n)) g t d of
           Inl e \<Rightarrow> False
         | Inr g' \<Rightarrow> g'\<lparr>positions_log := []\<rparr> = (destroy g t)\<lparr>positions_log := []\<rparr>"
proof -
  let ?tok = "tokens g ! t"
  let ?g1 = "g\<lparr>positions_log := positions_log g @ [position (row ?tok) (column ?tok)]\<rparr>"
  have scan: "beam_scan ?g1 ?tok d' = Some (Some t, (if d' = up then row ?tok - 1 else if d' = down then row ?tok + 1 else row ?tok), column ?tok)" for d'
    using assms by (simp add: beam_scan_own)
  have again: "reflect_beam (Suc n) ?g1 t d' = hitToken (Suc n) ?g1 t d'" for d'
    by (simp add: scan del: hitToken.simps)
  have direct: "is_destroyed ?tok d' \<Longrightarrow>
      (case hitToken (Suc m) g' t d' of
         Inl e \<Rightarrow> False
       | Inr g'' \<Rightarrow> g''\<lparr>positions_log := []\<rparr> = (destroy g t)\<lparr>positions_log := []\<rparr>)"
    if "g' = g\<lparr>positions_log := pl'\<rparr>" for d' m g' pl'
    using that by (simp add: Let_def destroy_def)
  show ?thesis
  proof (cases "is_destroyed ?tok d")
    case True
    from direct [of g "positions_log g", OF _ this, where m = "Suc n"] show ?thesis
      by (simp del: hitToken.simps)
  next
    case False
    then have first: "hitToken (Suc (Suc n)) g t d = reflect (Suc n) ?g1 t d"
      by (simp add: Let_def del: reflect.simps)
    define d' where "d' =
      (let ori = orientation ?tok in
       if d = right then (if ori = left then down else up)
       else if d = left then (if ori = right then up else down)
       else if d = up then (if ori = left then left else right)
       else (if ori = right then right else left))"
    have second: "reflect (Suc n) ?g1 t d = hitToken (Suc n) ?g1 t d'"
      using assms(1)
      by (simp add: again d'_def Let_def del: reflect_beam.simps hitToken.simps)
    have "is_destroyed ?tok d'"
      using assms(1) False
      by (cases d; cases "orientation ?tok") (simp_all add: d'_def is_destroyed_def Let_def)
    from direct [OF refl this, where m = n] show ?thesis
      unfolding first second .
  qed
qed

section \<open>Queens and switches\<close>





section \<open>Runs of the code on a new game\<close>

text \<open>
  Claim C1 says that \<^verbatim>\<open>undoLastEvent\<close> after an action and \<^verbatim>\<open>activate_laser\<close> restores the
  occupancy of every square, also when the beam destroyed a piece. On a new game, red moves
  its queen from (0, 5) to (1, 5); the red beam destroys the red deflector of square (3, 0).
  One \<^verbatim>\<open>undoLastEvent\<close> empties the log and restores every token, but square (3, 0), which
  held the deflector, stays empty: the undo of a destruction does not write the square.
\<close>

theorem undo_leaves_destroyed_token_off_board:
  "move 1 (1, 5) \<in> set (getAllPossibleActions Game_init red) \<and>
   (case activate_laser 10 (doAction Game_init (move 1 (1, 5))) red of
      Inl e \<Rightarrow> False
    | Inr g \<Rightarrow>
        game_log g = [move_event 1 (0, 5), destruction_event 6] \<and>
        destroyed (tokens g ! 6) \<and>
        (case undoLastEvent g of
           Inl e \<Rightarrow> False
         | Inr g' \<Rightarrow>
             game_log g' = [] \<and> tokens g' = tokens Game_init \<and>
             inhabiting_token Game_init (3, 0) = Some 6 \<and>
             inhabiting_token g' (3, 0) = None))"
  by code_simp

text \<open>
  Claim C3 says that a deflector oriented up and struck by a beam travelling right is not
  destroyed, the beam going on upwards. After four plies of a new game the red deflector
  stands on (0, 2) oriented up, and red turns its laser to the right: \<^verbatim>\<open>is_destroyed\<close> is
  false for the hit from the left side, but the reflected beam is scanned from the
  deflector's own square, strikes it again travelling up, and destroys it.
\<close>

theorem deflector_up_struck_from_right_is_destroyed:
  "(case play 10 Game_init [rotation 5 up, move 14 (6, 4), move 5 (0, 2), move 14 (7, 4)] of
      Some (Inr g) \<Rightarrow>
        rotation 0 right \<in> set (getAllPossibleActions g red) \<and>
        (let g1 = doAction g (rotation 0 right) in
           name (tokens g1 ! 5) = deflector \<and> orientation (tokens g1 ! 5) = up \<and>
           (row (tokens g1 ! 5), column (tokens g1 ! 5)) = (0, 2) \<and>
           \<not> destroyed (tokens g1 ! 5) \<and> inhabiting_token g1 (0, 2) = Some 5 \<and>
           orientation (tokens g1 ! 0) = right \<and>
           \<not> is_destroyed (tokens g1 ! 5) right \<and>
           (case activate_laser 10 g1 red of
              Inl e \<Rightarrow> False
            | Inr g2 \<Rightarrow>
                positions_log g2 = [position 0 0, position 0 2, position 0 2, destroyed_mark] \<and>
                destroyed (tokens g2 ! 5) \<and> inhabiting_token g2 (0, 2) = None \<and>
                last (game_log g2) = destruction_event 5))
    | _ \<Rightarrow> False)"
  by code_simp

text \<open>
  Claim C5 says that a click selects a piece only if it belongs to the side to move (red on
  an even turn counter). On a new game (turn 0, red to move) \<^verbatim>\<open>squareSelected\<close> on the red
  queen keeps no selection and highlights nothing, while on the blue queen it selects it and
  highlights its moves; a second click then moves the blue queen and ends red's turn.
\<close>

theorem selection_accepts_only_the_other_side:
  "turn (game start) = 0 \<and> getCurrentPlayerColor start = red \<and>
   inhabiting_token (game start) (0, 5) = Some 1 \<and> color (tokens (game start) ! 1) = red \<and>
   inhabiting_token (game start) (7, 4) = Some 14 \<and> color (tokens (game start) ! 14) = blue \<and>
   (case squareSelected 10 start 0 5 of
      Inl e \<Rightarrow> False
    | Inr ctl \<Rightarrow> selected_token ctl = None \<and> tokens (game ctl) = tokens (game start) \<and>
        \<not> highlighted (game ctl) (1, 4) \<and> \<not> highlighted (game ctl) (1, 5) \<and>
        \<not> highlighted (game ctl) (1, 6)) \<and>
   (case squareSelected 10 start 7 4 of
      Inl e \<Rightarrow> False
    | Inr ctl \<Rightarrow> selected_token ctl = Some 14 \<and>
        highlighted (game ctl) (6, 3) \<and> highlighted (game ctl) (6, 4) \<and> highlighted (game ctl) (6, 5) \<and>
        (case squareSelected 10 ctl 6 4 of
           Inl e \<Rightarrow> False
         | Inr ctl' \<Rightarrow>
             (row (tokens (game ctl') ! 14), column (tokens (game ctl') ! 14)) = (6, 4) \<and>
             inhabiting_token (game ctl') (6, 4) = Some 14 \<and>
             inhabiting_token (game ctl') (7, 4) = None \<and>
             turn (game ctl') = 1))"
  by code_simp

text \<open>In any state, a click on a square of the board that is not highlighted and holds a token
  keeps the selection exactly when the token's colour is not the colour to move, and changes
  neither tokens nor occupancy.\<close>

lemma squareSelected_selection:
  assumes "0 \<le> r" "r < 8" "0 \<le> c" "c < 10"
    and "\<not> highlighted (game ctl) (r, c)" "inhabiting_token (game ctl) (r, c) = Some t"
  shows "\<exists>ctl'. squareSelected n ctl r c = Inr ctl' \<and>
           selected_token ctl' =
             (if color (tokens (game ctl) ! t) = getCurrentPlayerColor ctl then None else Some t) \<and>
           tokens (game ctl') = tokens (game ctl) \<and>
           inhabiting_token (game ctl') = inhabiting_token (game ctl)"
  using assms
  by (simp add: squareSelected_def list_index_def Let_def unhighlightAllSquares_def
        getCurrentPlayerColor_def)

text \<open>Six plies that bring a red switch to (0, 3), in front of the red laser.\<close>

lemma switch_position:
  "(case play 10 Game_init
           [move 11 (2, 4), move 14 (6, 4), move 11 (1, 3), move 14 (7, 4), move 11 (0, 3), move 14 (6, 4)] of
      Some (Inr g) \<Rightarrow>
        rotation 0 right \<in> set (getAllPossibleActions g red) \<and>
        (let g1 = doAction g (rotation 0 right) in
           color (tokens g1 ! 0) = red \<and> orientation (tokens g1 ! 0) = right \<and>
           (row (tokens g1 ! 0), column (tokens g1 ! 0)) = (0, 0) \<and>
           name (tokens g1 ! 11) = switch \<and>
           (row (tokens g1 ! 11), column (tokens g1 ! 11)) = (0, 3) \<and>
           inhabiting_token g1 (0, 1) = None \<and> inhabiting_token g1 (0, 2) = None \<and>
           inhabiting_token g1 (0, 3) = Some 11)
    | _ \<Rightarrow> False)"
  by code_simp

section \<open>The lasers are never struck\<close>

lemmas inv_defs = laser_invariant_def lasers_alive_def board_consistent_def corners_kept_def
  log_moves_safe_def position_of_def

lemma inv_positions_log [simp]: "laser_invariant (g\<lparr>positions_log := pl\<rparr>) = laser_invariant g"
  by (simp add: inv_defs)

lemma inv_turn [simp]: "laser_invariant (g\<lparr>turn := n\<rparr>) = laser_invariant g"
  by (simp add: inv_defs)

lemma inv_highlighted [simp]: "laser_invariant (g\<lparr>highlighted := h\<rparr>) = laser_invariant g"
  by (simp add: inv_defs)

lemma inv_log_rotation [simp]:
  "laser_invariant (g\<lparr>game_log := game_log g @ [rotation_event t ori]\<rparr>) = laser_invariant g"
  by (simp add: inv_defs)

lemma inv_log_destruction [simp]:
  "laser_invariant (g\<lparr>game_log := game_log g @ [destruction_event t]\<rparr>) = laser_invariant g"
  by (simp add: inv_defs)

lemma inv_log_butlast:
  assumes "laser_invariant g"
  shows "laser_invariant (g\<lparr>game_log := butlast (game_log g)\<rparr>)"
proof -
  have "log_moves_safe (g\<lparr>game_log := butlast (game_log g)\<rparr>)"
    using assms unfolding laser_invariant_def log_moves_safe_def
    by (auto dest: in_set_butlastD)
  then show ?thesis
    using assms by (simp add: laser_invariant_def lasers_alive_def board_consistent_def corners_kept_def position_of_def)
qed

lemma inv_log_move:
  assumes "laser_invariant g" "t < length (tokens g)" "t \<noteq> 0" "t \<noteq> 13" "\<not> laser_square sq"
  shows "laser_invariant (g\<lparr>game_log := game_log g @ [move_event t sq]\<rparr>)"
proof -
  have "log_moves_safe (g\<lparr>game_log := game_log g @ [move_event t sq]\<rparr>)"
    using assms unfolding laser_invariant_def log_moves_safe_def by auto
  then show ?thesis
    using assms by (simp add: laser_invariant_def lasers_alive_def board_consistent_def corners_kept_def position_of_def)
qed

lemma inv_token_update:
  assumes inv: "laser_invariant g"
    and same: "name tok = name (tokens g ! t)" "color tok = color (tokens g ! t)"
      "row tok = row (tokens g ! t)" "column tok = column (tokens g ! t)"
    and alive: "t = 0 \<or> t = 13 \<Longrightarrow> \<not> destroyed tok"
  shows "laser_invariant (g\<lparr>tokens := (tokens g)[t := tok]\<rparr>)"
proof -
  let ?g = "g\<lparr>tokens := (tokens g)[t := tok]\<rparr>"
  have nth: "name (tokens ?g ! i) = name (tokens g ! i) \<and> color (tokens ?g ! i) = color (tokens g ! i)
      \<and> position_of ?g i = position_of g i" if "i < length (tokens g)" for i
    using same that by (cases "i = t") (simp_all add: position_of_def)
  have dead: "destroyed (tokens ?g ! i) = destroyed (tokens g ! i)" if "i \<noteq> t" for i
    using that by simp
  have la: "lasers_alive g"
    using inv by (simp add: laser_invariant_def)
  then have "13 < length (tokens g)"
    by (simp add: lasers_alive_def)
  then have len: "0 < length (tokens g)" "13 < length (tokens g)"
    by linarith+
  have "color (tokens ?g ! 0) = red" "color (tokens ?g ! 13) = blue"
    using la nth [OF len(1)] nth [OF len(2)] by (simp_all add: lasers_alive_def)
  moreover have "\<not> destroyed (tokens ?g ! 0)"
    using la alive dead [of 0] len by (cases "t = 0") (simp_all add: lasers_alive_def)
  moreover have "\<not> destroyed (tokens ?g ! 13)"
    using la alive dead [of 13] len by (cases "t = 13") (simp_all add: lasers_alive_def)
  moreover have "\<forall>i < length (tokens ?g). (name (tokens ?g ! i) = laser) = (i = 0 \<or> i = 13)"
    using la nth by (simp add: lasers_alive_def)
  ultimately have "lasers_alive ?g"
    using len by (simp add: lasers_alive_def)
  moreover have "board_consistent ?g"
    using inv nth unfolding laser_invariant_def board_consistent_def by auto
  moreover have "corners_kept ?g"
    using inv nth unfolding laser_invariant_def corners_kept_def by auto
  moreover have "log_moves_safe ?g"
    using inv unfolding laser_invariant_def log_moves_safe_def by auto
  ultimately show ?thesis by (simp add: laser_invariant_def)
qed

lemma inv_clear_square:
  "laser_invariant g \<Longrightarrow> \<not> laser_square sq \<Longrightarrow>
   laser_invariant (g\<lparr>inhabiting_token := (inhabiting_token g)(sq := None)\<rparr>)"
  by (auto simp: inv_defs laser_square_def)

lemma board_consistentD:
  "board_consistent g \<Longrightarrow> inhabiting_token g sq = Some t \<Longrightarrow>
     t < length (tokens g) \<and> position_of g t = sq"
  unfolding board_consistent_def by blast

lemma log_moves_safeD:
  "log_moves_safe g \<Longrightarrow> move_event t sq \<in> set (game_log g) \<Longrightarrow>
     t < length (tokens g) \<and> t \<noteq> 0 \<and> t \<noteq> 13 \<and> \<not> laser_square sq"
  unfolding log_moves_safe_def by blast

lemma inv_moveToken:
  assumes inv: "laser_invariant g" and t: "t < length (tokens g)" "t \<noteq> 0" "t \<noteq> 13"
    and sq: "\<not> laser_square sq"
  shows "laser_invariant (moveToken g t sq forward)"
proof -
  let ?start = "position_of g t"
  let ?tok = "(tokens g ! t)\<lparr>row := fst sq, column := snd sq\<rparr>"
  let ?g = "g\<lparr>tokens := (tokens g)[t := ?tok],
               inhabiting_token := ((inhabiting_token g)(?start := None))(sq := Some t)\<rparr>"
  have la: "lasers_alive g" and bc: "board_consistent g" and ck: "corners_kept g"
    and lm: "log_moves_safe g"
    using inv by (simp_all add: laser_invariant_def)
  have start: "\<not> laser_square ?start"
    using ck t by (simp add: corners_kept_def)
  have other: "tokens ?g ! u = tokens g ! u" "position_of ?g u = position_of g u" if "u \<noteq> t" for u
    using that by (simp_all add: position_of_def)
  have moved: "position_of ?g t = sq" "name (tokens ?g ! t) = name (tokens g ! t)"
    using t by (simp_all add: position_of_def)
  have "lasers_alive ?g"
    unfolding lasers_alive_def
  proof (intro conjI allI impI)
    fix u assume "u < length (tokens ?g)"
    then show "(name (tokens ?g ! u) = laser) = (u = 0 \<or> u = 13)"
      using la moved(2) other(1) [of u] by (cases "u = t") (simp_all add: lasers_alive_def)
  qed (use la t other(1) [of 0] other(1) [of 13] in \<open>simp_all add: lasers_alive_def\<close>)
  moreover have "board_consistent ?g"
    unfolding board_consistent_def
  proof (intro conjI allI impI)
    show "inhabiting_token ?g (0, 0) = Some 0" "inhabiting_token ?g (7, 9) = Some 13"
      using bc sq start by (auto simp: board_consistent_def laser_square_def)
  next
    fix s u assume occ: "inhabiting_token ?g s = Some u"
    show "u < length (tokens ?g)"
      using occ t board_consistentD [OF bc, of s u] by (auto split: if_splits)
    show "position_of ?g u = s"
    proof (cases "s = sq")
      case True
      with occ moved show ?thesis by simp
    next
      case False
      with occ have old: "inhabiting_token g s = Some u" and ns: "s \<noteq> ?start"
        by (auto split: if_splits)
      with bc have "position_of g u = s" by (simp add: board_consistentD)
      with ns have "u \<noteq> t" by auto
      with \<open>position_of g u = s\<close> other(2) show ?thesis by simp
    qed
  qed
  moreover have "corners_kept ?g"
    unfolding corners_kept_def
  proof (intro allI impI)
    fix u assume "u < length (tokens ?g)" "u \<noteq> 0" "u \<noteq> 13"
    then show "\<not> laser_square (position_of ?g u)"
      using ck sq moved(1) other(2) [of u] by (cases "u = t") (simp_all add: corners_kept_def)
  qed
  moreover have "log_moves_safe ?g"
    using lm by (simp add: log_moves_safe_def)
  ultimately have g: "laser_invariant ?g"
    by (simp add: laser_invariant_def)
  have "laser_invariant (?g\<lparr>game_log := game_log ?g @ [move_event t ?start]\<rparr>)"
    using g t start by (intro inv_log_move) simp_all
  with g show ?thesis
    by (cases forward) (simp_all add: moveToken_def move_token_def Let_def position_of_def)
qed

lemma inv_rotateToken:
  assumes "laser_invariant g"
  shows "laser_invariant (rotateToken g t ori forward)"
proof -
  let ?g = "g\<lparr>tokens := (tokens g)[t := changeOrientation (tokens g ! t) ori]\<rparr>"
  have "laser_invariant ?g"
    by (rule inv_token_update)
       (use assms in \<open>auto simp: changeOrientation_def laser_invariant_def lasers_alive_def\<close>)
  moreover have "laser_invariant (?g\<lparr>game_log := game_log ?g @ [rotation_event t (orientation (tokens g ! t))]\<rparr>)"
    using calculation by (simp only: inv_log_rotation)
  ultimately show ?thesis
    by (cases forward) (simp_all add: rotateToken_def Let_def)
qed

lemma inv_destroy:
  assumes inv: "laser_invariant g" and t: "t < length (tokens g)" "t \<noteq> 0" "t \<noteq> 13"
  shows "laser_invariant (destroy g t)"
proof -
  let ?g1 = "g\<lparr>tokens := (tokens g)[t := (tokens g ! t)\<lparr>destroyed := True\<rparr>]\<rparr>"
  have 1: "laser_invariant ?g1"
    using inv t by (intro inv_token_update) simp_all
  have "\<not> laser_square (position_of g t)"
    using inv t by (simp add: laser_invariant_def corners_kept_def)
  then have "laser_invariant (?g1\<lparr>inhabiting_token := (inhabiting_token ?g1)(position_of g t := None)\<rparr>)"
    using 1 by (intro inv_clear_square)
  then have "laser_invariant ((?g1\<lparr>inhabiting_token := (inhabiting_token ?g1)(position_of g t := None)\<rparr>)
      \<lparr>game_log := game_log g @ [destruction_event t]\<rparr>)"
    using inv_log_destruction [of "?g1\<lparr>inhabiting_token := (inhabiting_token ?g1)(position_of g t := None)\<rparr>" t]
    by simp
  then show ?thesis
    by (simp add: destroy_def position_of_def)
qed

lemma inv_undoLastEvent:
  "laser_invariant g \<Longrightarrow> undoLastEvent g = Inr g' \<Longrightarrow> laser_invariant g'"
proof (induction g rule: undoLastEvent.induct)
  case (1 g)
  let ?g1 = "g\<lparr>game_log := butlast (game_log g)\<rparr>"
  from "1.prems"(2) have ne: "game_log g \<noteq> []"
    by (subst (asm) undoLastEvent.simps) (auto split: if_splits)
  have g1: "laser_invariant ?g1"
    using "1.prems"(1) by (rule inv_log_butlast)
  show ?case
  proof (cases "last (game_log g)")
    case (move_event t sq)
    then have "move_event t sq \<in> set (game_log g)"
      using ne last_in_set by metis
    moreover have "log_moves_safe g"
      using "1.prems"(1) by (simp add: laser_invariant_def)
    ultimately have "t < length (tokens g)" "t \<noteq> 0" "t \<noteq> 13" "\<not> laser_square sq"
      using log_moves_safeD by blast+
    then have "laser_invariant (moveToken ?g1 t sq False)"
      using g1 by (intro inv_moveToken) simp_all
    moreover have "g' = moveToken ?g1 t sq False"
      using "1.prems"(2) ne move_event
      by (subst (asm) undoLastEvent.simps) (simp add: Let_def)
    ultimately show ?thesis by simp
  next
    case (rotation_event t ori)
    have "g' = rotateToken ?g1 t ori False"
      using "1.prems"(2) ne rotation_event
      by (subst (asm) undoLastEvent.simps) (simp add: Let_def)
    then show ?thesis
      using inv_rotateToken [OF g1] by simp
  next
    case (destruction_event t)
    let ?g2 = "?g1\<lparr>tokens := (tokens ?g1)[t := (tokens ?g1 ! t)\<lparr>destroyed := False\<rparr>]\<rparr>"
    have "laser_invariant ?g2"
      using g1 by (rule inv_token_update) simp_all
    moreover have "undoLastEvent ?g2 = Inr g'"
      using "1.prems"(2) ne destruction_event
      by (subst (asm) undoLastEvent.simps) (simp add: Let_def)
    ultimately show ?thesis
      using "1.IH" [OF ne refl refl destruction_event] by simp
  qed
qed

lemma possible_move_cell:
  assumes "sq \<in> set (getPossibleMoves g tok)"
  shows "name tok \<noteq> laser \<and> inhabiting_token g sq = None \<and>
         0 \<le> fst sq \<and> fst sq \<le> 7 \<and> 0 \<le> snd sq \<and> snd sq \<le> 9"
proof -
  define cell where "cell i j =
     (let r = row tok + i; c = column tok + j in
      if r < 0 \<or> r > 7 \<or> c < 0 \<or> c > 9 then []
      else if inhabiting_token g (r, c) = None \<and>
              (square_color (r, c) = none \<or> square_color (r, c) = color tok)
           then [(r, c)] else [])" for i j
  have moves: "getPossibleMoves g tok =
      (if name tok = laser then []
       else concat (map (\<lambda>i. concat (map (cell i) [-1, 0, 1])) [-1, 0, 1]))"
    unfolding getPossibleMoves_def cell_def ..
  from assms have nl: "name tok \<noteq> laser"
    unfolding moves by (cases "name tok = laser") simp_all
  with assms obtain i j where "sq \<in> set (cell i j)"
    unfolding moves by auto
  then have "inhabiting_token g sq = None \<and> 0 \<le> fst sq \<and> fst sq \<le> 7 \<and> 0 \<le> snd sq \<and> snd sq \<le> 9"
    unfolding cell_def Let_def by (auto split: if_splits)
  with nl show ?thesis by simp
qed

lemma possible_move_target:
  "sq \<in> set (getPossibleMoves g tok) \<Longrightarrow> name tok \<noteq> laser \<and> inhabiting_token g sq = None"
  using possible_move_cell by blast

lemma possible_action_cases:
  assumes "a \<in> set (getAllPossibleActions g c)"
  shows "(\<exists>t sq. a = move t sq \<and> t < length (tokens g) \<and> sq \<in> set (getPossibleMoves g (tokens g ! t)))
       \<or> (\<exists>t ori. a = rotation t ori)"
  using assms by (auto simp: getAllPossibleActions_def Let_def split: if_splits)

lemma fold_first_token:
  "fold (\<lambda>sq token_hit. if token_hit = None then inhabiting_token g sq else token_hit) sqs acc = Some th
   \<Longrightarrow> acc = Some th \<or> (\<exists>sq \<in> set sqs. inhabiting_token g sq = Some th)"
  by (induction sqs arbitrary: acc) (auto split: if_splits)

lemma line_of_fire_hit:
  "line_of_fire g sqs = Some th \<Longrightarrow> \<exists>sq \<in> set sqs. inhabiting_token g sq = Some th"
  unfolding line_of_fire_def by (drule fold_first_token) simp

lemma laser_positions:
  assumes "laser_invariant g"
  shows "position_of g 0 = (0, 0)" "position_of g 13 = (7, 9)"
  using assms board_consistentD [of g "(0, 0)" 0] board_consistentD [of g "(7, 9)" 13]
  by (simp_all add: laser_invariant_def board_consistent_def)

lemma inv_hitToken:
  assumes inv: "laser_invariant g" and occ: "inhabiting_token g sq = Some th"
    and sq: "\<not> laser_square sq" and hit: "hitToken n g th d = Inr g'"
  shows "laser_invariant g'"
proof -
  have bc: "board_consistent g" using inv by (simp add: laser_invariant_def)
  from board_consistentD [OF bc occ] have th: "th < length (tokens g)" "position_of g th = sq"
    by simp_all
  have "position_of g th \<noteq> position_of g 0" "position_of g th \<noteq> position_of g 13"
    using laser_positions [OF inv] th(2) sq by (simp_all add: laser_square_def)
  then have "th \<noteq> 0" "th \<noteq> 13"
    by (metis, metis)
  then have d: "laser_invariant (destroy g th)"
    using inv th(1) by (intro inv_destroy)
  have own: "inhabiting_token g (row (tokens g ! th), column (tokens g ! th)) = Some th"
    using occ th(2) by (simp add: position_of_def)
  have "laser_invariant ((destroy g th)\<lparr>positions_log := []\<rparr>)" "laser_invariant (g\<lparr>positions_log := []\<rparr>)"
    using d inv by (simp_all only: inv_positions_log)
  with hitToken_own_square [OF own hit]
  have "laser_invariant (g'\<lparr>positions_log := []\<rparr>)"
    by (elim disjE) (simp_all only:)
  then show ?thesis by simp
qed

lemma arrangeTokens_occupant:
  "arrangeTokens ts i b sq = Some t \<Longrightarrow>
     b sq = Some t \<or> (i \<le> t \<and> t < i + length ts \<and> (row (ts ! (t - i)), column (ts ! (t - i))) = sq)"
proof (induction ts arbitrary: i b)
  case Nil
  then show ?case by simp
next
  case (Cons a ts)
  from Cons.IH [OF Cons.prems [simplified]] show ?case
    by (auto split: if_splits simp: nth_Cons')
qed

lemma init_length: "length (tokens Game_init) = 26"
  by code_simp

lemma init_names: "\<forall>t \<in> set [0 ..< 26]. (name (tokens Game_init ! t) = laser) = (t = 0 \<or> t = 13)"
  by code_simp

lemma init_lasers:
  "color (tokens Game_init ! 0) = red" "color (tokens Game_init ! 13) = blue"
  "\<not> destroyed (tokens Game_init ! 0)" "\<not> destroyed (tokens Game_init ! 13)"
  "inhabiting_token Game_init (0, 0) = Some 0" "inhabiting_token Game_init (7, 9) = Some 13"
  by code_simp+

lemma init_corners: "\<forall>t \<in> set [0 ..< 26]. t = 0 \<or> t = 13 \<or>
         (position_of Game_init t \<noteq> (0, 0) \<and> position_of Game_init t \<noteq> (7, 9))"
  by code_simp

lemma init_lasers_alive: "lasers_alive Game_init"
  unfolding lasers_alive_def
proof (intro conjI allI impI)
  fix t assume "t < length (tokens Game_init)"
  then have "t \<in> set [0 ..< 26]"
    by (simp add: init_length)
  with init_names show "(name (tokens Game_init ! t) = laser) = (t = 0 \<or> t = 13)"
    by (rule bspec)
qed (simp_all add: init_lasers init_length)

lemma init_board_consistent: "board_consistent Game_init"
  unfolding board_consistent_def
proof (intro conjI allI impI)
  fix sq t assume "inhabiting_token Game_init sq = Some t"
  then have "arrangeTokens initial_tokens 0 (\<lambda>sq. None) sq = Some t"
    by (simp add: Game_init_def)
  from arrangeTokens_occupant [OF this]
  have "t < length initial_tokens" "(row (initial_tokens ! t), column (initial_tokens ! t)) = sq"
    by simp_all
  moreover have "tokens Game_init = initial_tokens"
    by (simp add: Game_init_def)
  ultimately show "t < length (tokens Game_init)" "position_of Game_init t = sq"
    by (simp_all add: position_of_def)
qed (rule init_lasers)+

lemma init_corners_kept: "corners_kept Game_init"
  unfolding corners_kept_def laser_square_def
proof (intro allI impI)
  fix t assume "t < length (tokens Game_init)" and t: "t \<noteq> 0" "t \<noteq> 13"
  then have "t \<in> set [0 ..< 26]"
    by (simp add: init_length)
  with init_corners
  have "t = 0 \<or> t = 13 \<or>
         (position_of Game_init t \<noteq> (0, 0) \<and> position_of Game_init t \<noteq> (7, 9))"
    by (rule bspec)
  with t show "\<not> (position_of Game_init t = (0, 0) \<or> position_of Game_init t = (7, 9))"
    by simp
qed

lemma init_log: "log_moves_safe Game_init"
  by (simp add: log_moves_safe_def Game_init_def)

lemma inv_Game_init: "laser_invariant Game_init"
  using init_lasers_alive init_board_consistent init_corners_kept init_log 
  by (simp add: laser_invariant_def)

lemma line_hit:
  fixes f :: "int \<Rightarrow> int \<times> int"
  assumes "line_of_fire g (map f js) = Some th" "set js \<subseteq> {1 .. 9}"
  shows "\<exists>i. inhabiting_token g (f i) = Some th \<and> 1 \<le> i \<and> i \<le> 9"
proof -
  from line_of_fire_hit [OF assms(1)] obtain j where "j \<in> set js" "inhabiting_token g (f j) = Some th"
    by auto
  with assms(2) show ?thesis by (intro exI [of _ j]) auto
qed

lemma activate_laser_result:
  assumes fire: "activate_laser n g c = Inr g'" and l: "laser_dict c = Some l"
  obtains (miss) pl where "g' = g\<lparr>positions_log := pl\<rparr>"
  | (hit) th i pl where
      "hitToken n (g\<lparr>positions_log := pl\<rparr>) th (orientation (tokens g ! l)) = Inr g'"
      "inhabiting_token g
         (if color (tokens g ! l) = red then
            (if orientation (tokens g ! l) = down
             then (row (tokens g ! l) + i, column (tokens g ! l))
             else (row (tokens g ! l), column (tokens g ! l) + i))
          else
            (if orientation (tokens g ! l) = up
             then (row (tokens g ! l) - i, column (tokens g ! l))
             else (row (tokens g ! l), column (tokens g ! l) - i))) = Some th"
      "1 \<le> i" "i \<le> 9"
proof -
  let ?lsr = "tokens g ! l"
  let ?g1 = "g\<lparr>positions_log := [position (row ?lsr) (column ?lsr)]\<rparr>"
  consider (rd) "color ?lsr = red" "orientation ?lsr = down"
    | (rr) "color ?lsr = red" "orientation ?lsr \<noteq> down"
    | (bu) "color ?lsr \<noteq> red" "orientation ?lsr = up"
    | (bl) "color ?lsr \<noteq> red" "orientation ?lsr \<noteq> up"
    by blast
  then show ?thesis
  proof cases
    case rd
    show ?thesis
    proof (cases "line_of_fire ?g1 (map (\<lambda>i. (row ?lsr + i, column ?lsr)) [1, 2, 3, 4, 5, 6, 7])")
      case None
      with fire l rd have "g' = g\<lparr>positions_log := [position (row ?lsr) (column ?lsr), position 7 (column ?lsr), out]\<rparr>"
        by (simp add: activate_laser_def Let_def)
      then show ?thesis by (rule miss)
    next
      case (Some th)
      with fire l rd have h: "hitToken n ?g1 th (orientation ?lsr) = Inr g'"
        by (simp add: activate_laser_def Let_def del: hitToken.simps)
      from line_hit [OF Some] obtain i where "inhabiting_token g (row ?lsr + i, column ?lsr) = Some th" "1 \<le> i" "i \<le> 9"
        by force
      then show ?thesis using h rd by (intro hit [of "[position (row ?lsr) (column ?lsr)]" th i]; simp)
    qed
  next
    case rr
    show ?thesis
    proof (cases "line_of_fire ?g1 (map (\<lambda>i. (row ?lsr, column ?lsr + i)) [1, 2, 3, 4, 5, 6, 7, 8, 9])")
      case None
      with fire l rr have "g' = g\<lparr>positions_log := [position (row ?lsr) (column ?lsr), position (row ?lsr) 9, out]\<rparr>"
        by (simp add: activate_laser_def Let_def)
      then show ?thesis by (rule miss)
    next
      case (Some th)
      with fire l rr have h: "hitToken n ?g1 th (orientation ?lsr) = Inr g'"
        by (simp add: activate_laser_def Let_def del: hitToken.simps)
      from line_hit [OF Some] obtain i where "inhabiting_token g (row ?lsr, column ?lsr + i) = Some th" "1 \<le> i" "i \<le> 9"
        by force
      then show ?thesis using h rr by (intro hit [of "[position (row ?lsr) (column ?lsr)]" th i]; simp)
    qed
  next
    case bu
    show ?thesis
    proof (cases "line_of_fire ?g1 (map (\<lambda>i. (row ?lsr - i, column ?lsr)) [1, 2, 3, 4, 5, 6, 7])")
      case None
      with fire l bu have "g' = g\<lparr>positions_log := [position (row ?lsr) (column ?lsr), position 0 (column ?lsr), out]\<rparr>"
        by (simp add: activate_laser_def Let_def)
      then show ?thesis by (rule miss)
    next
      case (Some th)
      with fire l bu have h: "hitToken n ?g1 th (orientation ?lsr) = Inr g'"
        by (simp add: activate_laser_def Let_def del: hitToken.simps)
      from line_hit [OF Some] obtain i where "inhabiting_token g (row ?lsr - i, column ?lsr) = Some th" "1 \<le> i" "i \<le> 9"
        by force
      then show ?thesis using h bu by (intro hit [of "[position (row ?lsr) (column ?lsr)]" th i]; simp)
    qed
  next
    case bl
    show ?thesis
    proof (cases "line_of_fire ?g1 (map (\<lambda>i. (row ?lsr, column ?lsr - i)) [1, 2, 3, 4, 5, 6, 7, 8, 9])")
      case None
      with fire l bl have "g' = g\<lparr>positions_log := [position (row ?lsr) (column ?lsr), position (row ?lsr) 0, out]\<rparr>"
        by (simp add: activate_laser_def Let_def)
      then show ?thesis by (rule miss)
    next
      case (Some th)
      with fire l bl have h: "hitToken n ?g1 th (orientation ?lsr) = Inr g'"
        by (simp add: activate_laser_def Let_def del: hitToken.simps)
      from line_hit [OF Some] obtain i where "inhabiting_token g (row ?lsr, column ?lsr - i) = Some th" "1 \<le> i" "i \<le> 9"
        by force
      then show ?thesis using h bl by (intro hit [of "[position (row ?lsr) (column ?lsr)]" th i]; simp)
    qed
  qed
qed

lemma rotate_keeps:
  assumes "rotateClockwise tok = Inr tok' \<or> rotateAntiClockwise tok = Inr tok'"
  shows "name tok' = name tok \<and> color tok' = color tok \<and> row tok' = row tok \<and>
         column tok' = column tok \<and> destroyed tok' = destroyed tok"
  using assms
  by (cases "name tok") (auto simp: rotateClockwise_def rotateAntiClockwise_def)

lemma laser_names:
  assumes "lasers_alive g"
  shows "0 < length (tokens g)" "13 < length (tokens g)"
    "name (tokens g ! 0) = laser" "name (tokens g ! 13) = laser"
proof -
  show 13: "13 < length (tokens g)" using assms by (simp add: lasers_alive_def)
  then show 0: "0 < length (tokens g)" by linarith
  have "\<forall>t < length (tokens g). (name (tokens g ! t) = laser) = (t = 0 \<or> t = 13)"
    using assms by (simp add: lasers_alive_def)
  with 0 13 show "name (tokens g ! 0) = laser" "name (tokens g ! 13) = laser"
    by blast+
qed

lemma inv_possible_move:
  assumes inv: "laser_invariant g" and t: "t < length (tokens g)"
    and sq: "sq \<in> set (getPossibleMoves g (tokens g ! t))"
  shows "laser_invariant (moveToken g t sq forward)"
proof -
  have la: "lasers_alive g" and bc: "board_consistent g"
    using inv by (simp_all add: laser_invariant_def)
  from possible_move_target [OF sq] have nl: "name (tokens g ! t) \<noteq> laser"
    and free: "inhabiting_token g sq = None" by simp_all
  have "t \<noteq> 0" "t \<noteq> 13"
    using nl laser_names [OF la] by (metis, metis)
  moreover have "inhabiting_token g (0, 0) = Some 0" "inhabiting_token g (7, 9) = Some 13"
    using bc by (simp_all add: board_consistent_def)
  with free have "\<not> laser_square sq"
    unfolding laser_square_def by force
  ultimately show ?thesis
    using inv t by (intro inv_moveToken)
qed

lemma inv_rotated:
  assumes inv: "laser_invariant g"
    and rot: "rotateClockwise (tokens g ! t) = Inr tok \<or> rotateAntiClockwise (tokens g ! t) = Inr tok"
  shows "laser_invariant (g\<lparr>tokens := (tokens g)[t := tok]\<rparr>)"
proof -
  from rotate_keeps [OF rot]
  have keeps: "name tok = name (tokens g ! t)" "color tok = color (tokens g ! t)"
    "row tok = row (tokens g ! t)" "column tok = column (tokens g ! t)"
    "destroyed tok = destroyed (tokens g ! t)" by simp_all
  have la: "lasers_alive g"
    using inv by (simp add: laser_invariant_def)
  then have alive: "\<not> destroyed (tokens g ! 0)" "\<not> destroyed (tokens g ! 13)"
    by (simp_all add: lasers_alive_def)
  show ?thesis
    using inv keeps(1-4)
  proof (rule inv_token_update)
    assume "t = 0 \<or> t = 13"
    then show "\<not> destroyed tok"
      using keeps(5) alive by blast
  qed
qed

lemma inv_activate_laser:
  assumes inv: "laser_invariant g" and fire: "activate_laser n g c = Inr g'"
  shows "laser_invariant g'"
proof -
  have la: "lasers_alive g" using inv by (simp add: laser_invariant_def)
  note pos = laser_positions [OF inv]
  obtain l where l: "laser_dict c = Some l" and lc: "l = 0 \<and> c = red \<or> l = 13 \<and> c = blue"
    using fire by (cases c) (auto simp: activate_laser_def laser_dict_def)
  have col: "color (tokens g ! 0) = red" "color (tokens g ! 13) \<noteq> red"
    using la by (simp_all add: lasers_alive_def)
  from fire l show ?thesis
  proof (cases rule: activate_laser_result)
    case (miss pl)
    with inv show ?thesis by simp
  next
    case (hit th i pl)
    let ?sq = "if color (tokens g ! l) = red then
            (if orientation (tokens g ! l) = down
             then (row (tokens g ! l) + i, column (tokens g ! l))
             else (row (tokens g ! l), column (tokens g ! l) + i))
          else
            (if orientation (tokens g ! l) = up
             then (row (tokens g ! l) - i, column (tokens g ! l))
             else (row (tokens g ! l), column (tokens g ! l) - i))"
    have "\<not> laser_square ?sq"
      using lc
    proof
      assume "l = 0 \<and> c = red"
      with pos(1) col(1) hit(3,4) show ?thesis
        by (simp add: position_of_def laser_square_def)
    next
      assume "l = 13 \<and> c = blue"
      with pos(2) col(2) hit(3,4) show ?thesis
        by (simp add: position_of_def laser_square_def)
    qed
    moreover have "laser_invariant (g\<lparr>positions_log := pl\<rparr>)"
      using inv by simp
    moreover have "inhabiting_token (g\<lparr>positions_log := pl\<rparr>) ?sq = Some th"
      using hit(2) by simp
    ultimately show ?thesis
      using hit(1) inv_hitToken [of "g\<lparr>positions_log := pl\<rparr>" ?sq th n "orientation (tokens g ! l)" g']
      by simp
  qed
qed

lemma reachable_invariant: "reachable g \<Longrightarrow> laser_invariant g"
proof (induction rule: reachable.induct)
  case new_game
  show ?case by (rule inv_Game_init)
next
  case (action g a c)
  from possible_action_cases [OF action.hyps(2)] show ?case
  proof (elim disjE exE conjE)
    fix t sq assume "a = move t sq" "t < length (tokens g)"
      "sq \<in> set (getPossibleMoves g (tokens g ! t))"
    then show ?thesis
      using inv_possible_move [OF action.IH] by simp
  next
    fix t ori assume "a = rotation t ori"
    then show ?thesis using action.IH by (simp add: inv_rotateToken)
  qed
next
  case (beam g n c g')
  then show ?case using inv_activate_laser by blast
next
  case (undo g g')
  then show ?case using inv_undoLastEvent by blast
next
  case (selected_move g sq t sq')
  have "board_consistent g" using selected_move.IH by (simp add: laser_invariant_def)
  from board_consistentD [OF this selected_move.hyps(2)] have "t < length (tokens g)" by simp
  then show ?case
    using inv_possible_move [OF selected_move.IH _ selected_move.hyps(3)] by simp
next
  case (selected_clockwise g sq t tok)
  then show ?case using inv_rotated by blast
next
  case (selected_anticlockwise g sq t tok)
  then show ?case using inv_rotated by blast
next
  case (next_turn g)
  then show ?case by simp
next
  case (highlight g h)
  then show ?case by simp
qed




section \<open>Coordinates stay on the board\<close>

text \<open>
  In every reachable state the coordinates of every token, and so every square that is
  occupied, lie on the 8 x 10 board: the reads \<^verbatim>\<open>squares[row][col]\<close> of the engine, at the
  coordinates of a token, along a column from them, or along a laser's line of fire, stay
  inside the lists, and no \<^verbatim>\<open>IndexError\<close> and no negative index arises there.
\<close>

lemma position_of_frame [simp]:
  "position_of (g\<lparr>positions_log := pl\<rparr>) t = position_of g t"
  "position_of (g\<lparr>game_log := l\<rparr>) t = position_of g t"
  "position_of (g\<lparr>inhabiting_token := b\<rparr>) t = position_of g t"
  by (simp_all add: position_of_def)

lemma grid_frame [simp]:
  "tokens_in_grid (g\<lparr>positions_log := pl\<rparr>) = tokens_in_grid g"
  "tokens_in_grid (g\<lparr>turn := n\<rparr>) = tokens_in_grid g"
  "tokens_in_grid (g\<lparr>highlighted := h\<rparr>) = tokens_in_grid g"
  "tokens_in_grid (g\<lparr>inhabiting_token := b\<rparr>) = tokens_in_grid g"
  "tokens_in_grid (g\<lparr>game_log := game_log g @ [rotation_event t ori]\<rparr>) = tokens_in_grid g"
  "tokens_in_grid (g\<lparr>game_log := game_log g @ [destruction_event t]\<rparr>) = tokens_in_grid g"
  by (simp_all add: tokens_in_grid_def position_of_def)

lemma grid_fields:
  "tokens_in_grid g \<Longrightarrow> tokens g' = tokens g \<Longrightarrow> game_log g' = game_log g \<Longrightarrow>
     tokens_in_grid g'"
  by (simp add: tokens_in_grid_def position_of_def)

lemma grid_log_butlast:
  assumes "tokens_in_grid g"
  shows "tokens_in_grid (g\<lparr>game_log := butlast (game_log g)\<rparr>)"
proof -
  have "u < length (tokens g) \<and> in_grid s" if "move_event u s \<in> set (butlast (game_log g))" for u s
    using assms in_set_butlastD [OF that] unfolding tokens_in_grid_def by blast
  then show ?thesis
    using assms unfolding tokens_in_grid_def by (simp del: split_paired_All)
qed

lemma grid_token_update:
  assumes "tokens_in_grid g" "row tok = row (tokens g ! t)" "column tok = column (tokens g ! t)"
  shows "tokens_in_grid (g\<lparr>tokens := (tokens g)[t := tok]\<rparr>)"
proof -
  have "position_of (g\<lparr>tokens := (tokens g)[t := tok]\<rparr>) i = position_of g i"
    if "i < length (tokens g)" for i
    using that assms(2,3) by (cases "i = t") (simp_all add: position_of_def)
  then show ?thesis
    using assms(1) unfolding tokens_in_grid_def by (simp del: split_paired_All)
qed

lemma grid_moveToken:
  assumes g: "tokens_in_grid g" and t: "t < length (tokens g)" and sq: "in_grid sq"
  shows "tokens_in_grid (moveToken g t sq forward)"
proof -
  let ?tok = "(tokens g ! t)\<lparr>row := fst sq, column := snd sq\<rparr>"
  let ?g = "g\<lparr>tokens := (tokens g)[t := ?tok]\<rparr>"
  have pos: "in_grid (position_of ?g i)" if "i < length (tokens g)" for i
    using that g t sq by (cases "i = t") (simp_all add: position_of_def tokens_in_grid_def in_grid_def)
  have old: "in_grid (position_of g t)"
    using g t by (simp add: tokens_in_grid_def)
  have logged: "\<forall>u s. move_event u s \<in> set (game_log g) \<longrightarrow> u < length (tokens g) \<and> in_grid s"
    using g unfolding tokens_in_grid_def by blast
  have 1: "tokens_in_grid ?g"
    unfolding tokens_in_grid_def using pos logged by (simp del: split_paired_All)
  have 2: "tokens_in_grid (?g\<lparr>game_log := game_log g @ [move_event t (position_of g t)]\<rparr>)"
    unfolding tokens_in_grid_def using pos logged old t by (auto simp del: split_paired_All)
  show ?thesis
  proof (cases forward)
    case True
    show ?thesis
      by (rule grid_fields [OF 2]) (simp_all add: True moveToken_def move_token_def Let_def position_of_def)
  next
    case False
    show ?thesis
      by (rule grid_fields [OF 1]) (simp_all add: False moveToken_def move_token_def Let_def)
  qed
qed

lemma grid_rotateToken:
  "tokens_in_grid g \<Longrightarrow> tokens_in_grid (rotateToken g t ori forward)"
  using grid_token_update [of g "changeOrientation (tokens g ! t) ori" t]
    grid_frame(5) [of "g\<lparr>tokens := (tokens g)[t := changeOrientation (tokens g ! t) ori]\<rparr>" t "orientation (tokens g ! t)"]
  by (cases forward) (simp_all add: rotateToken_def Let_def changeOrientation_def)

lemma grid_destroy:
  assumes "tokens_in_grid g"
  shows "tokens_in_grid (destroy g t)"
proof -
  let ?g1 = "g\<lparr>tokens := (tokens g)[t := (tokens g ! t)\<lparr>destroyed := True\<rparr>]\<rparr>"
  have "tokens_in_grid ?g1"
    using assms by (rule grid_token_update) simp_all
  then have "tokens_in_grid (?g1\<lparr>game_log := game_log ?g1 @ [destruction_event t]\<rparr>)"
    by (simp only: grid_frame)
  then show ?thesis
    by (rule grid_fields) (simp_all add: destroy_def)
qed

lemma grid_undoLastEvent:
  "tokens_in_grid g \<Longrightarrow> undoLastEvent g = Inr g' \<Longrightarrow> tokens_in_grid g'"
proof (induction g rule: undoLastEvent.induct)
  case (1 g)
  let ?g1 = "g\<lparr>game_log := butlast (game_log g)\<rparr>"
  from "1.prems"(2) have ne: "game_log g \<noteq> []"
    by (subst (asm) undoLastEvent.simps) (auto split: if_splits)
  have g1: "tokens_in_grid ?g1"
    using "1.prems"(1) by (rule grid_log_butlast)
  show ?case
  proof (cases "last (game_log g)")
    case (move_event t sq)
    then have "move_event t sq \<in> set (game_log g)"
      using ne last_in_set by metis
    then have "t < length (tokens g)" "in_grid sq"
      using "1.prems"(1) unfolding tokens_in_grid_def by blast+
    then have "tokens_in_grid (moveToken ?g1 t sq False)"
      using g1 by (intro grid_moveToken) simp_all
    moreover have "g' = moveToken ?g1 t sq False"
      using "1.prems"(2) ne move_event
      by (subst (asm) undoLastEvent.simps) (simp add: Let_def)
    ultimately show ?thesis by simp
  next
    case (rotation_event t ori)
    have "g' = rotateToken ?g1 t ori False"
      using "1.prems"(2) ne rotation_event
      by (subst (asm) undoLastEvent.simps) (simp add: Let_def)
    then show ?thesis
      using grid_rotateToken [OF g1] by simp
  next
    case (destruction_event t)
    let ?g2 = "?g1\<lparr>tokens := (tokens ?g1)[t := (tokens ?g1 ! t)\<lparr>destroyed := False\<rparr>]\<rparr>"
    have "tokens_in_grid ?g2"
      using g1 by (rule grid_token_update) simp_all
    moreover have "undoLastEvent ?g2 = Inr g'"
      using "1.prems"(2) ne destruction_event
      by (subst (asm) undoLastEvent.simps) (simp add: Let_def)
    ultimately show ?thesis
      using "1.IH" [OF ne refl refl destruction_event] by simp
  qed
qed

lemma possible_move_in_grid: "sq \<in> set (getPossibleMoves g tok) \<Longrightarrow> in_grid sq"
  using possible_move_cell [of sq g tok] by (simp add: in_grid_def)

lemma init_in_grid: "tokens_in_grid Game_init"
proof -
  have all: "\<forall>t \<in> set [0 ..< 26]. in_grid (position_of Game_init t)"
    by code_simp
  have "in_grid (position_of Game_init t)" if "t < length (tokens Game_init)" for t
  proof -
    from that have "t \<in> set [0 ..< 26]" by (simp add: init_length)
    with all show ?thesis by (rule bspec)
  qed
  moreover have "game_log Game_init = []"
    by (simp add: Game_init_def)
  ultimately show ?thesis
    by (simp add: tokens_in_grid_def)
qed

lemma grid_activate_laser:
  assumes inv: "laser_invariant g" and grid: "tokens_in_grid g"
    and fire: "activate_laser n g c = Inr g'"
  shows "tokens_in_grid g'"
proof -
  obtain l where l: "laser_dict c = Some l"
    using fire by (cases c) (auto simp: activate_laser_def laser_dict_def)
  have bc: "board_consistent g" using inv by (simp add: laser_invariant_def)
  from fire l show ?thesis
  proof (cases rule: activate_laser_result)
    case (miss pl)
    with grid show ?thesis by simp
  next
    case (hit th i pl)
    from board_consistentD [OF bc hit(2)]
    have own: "inhabiting_token (g\<lparr>positions_log := pl\<rparr>)
        (row (tokens (g\<lparr>positions_log := pl\<rparr>) ! th), column (tokens (g\<lparr>positions_log := pl\<rparr>) ! th)) = Some th"
      using hit(2) by (simp add: position_of_def)
    have "tokens_in_grid ((destroy (g\<lparr>positions_log := pl\<rparr>) th)\<lparr>positions_log := []\<rparr>)"
      "tokens_in_grid (g\<lparr>positions_log := pl, positions_log := []\<rparr>)"
      using grid grid_destroy [of "g\<lparr>positions_log := pl\<rparr>" th] by simp_all
    with hitToken_own_square [OF own hit(1)]
    have "tokens_in_grid (g'\<lparr>positions_log := []\<rparr>)"
      by (elim disjE) (simp_all only:)
    then show ?thesis by simp
  qed
qed

lemma reachable_in_grid: "reachable g \<Longrightarrow> tokens_in_grid g"
proof (induction rule: reachable.induct)
  case new_game
  show ?case by (rule init_in_grid)
next
  case (action g a c)
  from possible_action_cases [OF action.hyps(2)] show ?case
  proof (elim disjE exE conjE)
    fix t sq assume "a = move t sq" "t < length (tokens g)"
      "sq \<in> set (getPossibleMoves g (tokens g ! t))"
    then show ?thesis
      using grid_moveToken [OF action.IH] possible_move_in_grid by simp
  next
    fix t ori assume "a = rotation t ori"
    then show ?thesis using action.IH by (simp add: grid_rotateToken)
  qed
next
  case (beam g n c g')
  then show ?case using grid_activate_laser reachable_invariant by blast
next
  case (undo g g')
  then show ?case using grid_undoLastEvent by blast
next
  case (selected_move g sq t sq')
  have "board_consistent g"
    using reachable_invariant [OF selected_move.hyps(1)] by (simp add: laser_invariant_def)
  from board_consistentD [OF this selected_move.hyps(2)] have "t < length (tokens g)" by simp
  then show ?case
    using grid_moveToken [OF selected_move.IH] possible_move_in_grid [OF selected_move.hyps(3)]
    by simp
next
  case (selected_clockwise g sq t tok)
  from rotate_keeps [of "tokens g ! t" tok] selected_clockwise.hyps(3)
  show ?case using selected_clockwise.IH by (intro grid_token_update) simp_all
next
  case (selected_anticlockwise g sq t tok)
  from rotate_keeps [of "tokens g ! t" tok] selected_anticlockwise.hyps(3)
  show ?case using selected_anticlockwise.IH by (intro grid_token_update) simp_all
next
  case (next_turn g)
  then show ?case by simp
next
  case (highlight g h)
  then show ?case by simp
qed

lemma reachable_reads_in_grid:
  assumes "reachable g"
  shows "\<forall>t < length (tokens g). in_grid (row (tokens g ! t), column (tokens g ! t))"
    and "\<forall>sq t. inhabiting_token g sq = Some t \<longrightarrow> in_grid sq"
proof -
  have grid: "tokens_in_grid g" using assms by (rule reachable_in_grid)
  then show 1: "\<forall>t < length (tokens g). in_grid (row (tokens g ! t), column (tokens g ! t))"
    by (simp add: tokens_in_grid_def position_of_def)
  have bc: "board_consistent g"
    using reachable_invariant [OF assms] by (simp add: laser_invariant_def)
  show "\<forall>sq t. inhabiting_token g sq = Some t \<longrightarrow> in_grid sq"
  proof (intro allI impI)
    fix sq t assume "inhabiting_token g sq = Some t"
    from board_consistentD [OF bc this] 1 show "in_grid sq"
      by (auto simp: position_of_def)
  qed
qed

section \<open>A beam that never returns\<close>

lemma red_beam_on_switch:
  assumes lsr: "color (tokens g ! 0) = red" "orientation (tokens g ! 0) = right"
      "(row (tokens g ! 0), column (tokens g ! 0)) = (0, 0)"
    and sw: "name (tokens g ! 11) = switch" "(row (tokens g ! 11), column (tokens g ! 11)) = (0, 3)"
    and line: "inhabiting_token g (0, 1) = None" "inhabiting_token g (0, 2) = None"
      "inhabiting_token g (0, 3) = Some 11"
  shows "activate_laser n g red = Inl RecursionError"
proof -
  let ?g1 = "g\<lparr>positions_log := [position 0 0]\<rparr>"
  have "line_of_fire ?g1 (map (\<lambda>i. (0, 0 + i)) [1, 2, 3, 4, 5, 6, 7, 8, 9]) = Some 11"
    using line by (simp add: line_of_fire_def)
  moreover have "hitToken n ?g1 11 right = Inl RecursionError"
    using sw line(3) by (intro hit_switch_never_returns) simp_all
  ultimately show ?thesis
    using lsr by (simp add: activate_laser_def laser_dict_def Let_def del: hitToken.simps)
qed

text \<open>
  Claim C2 says that every activation of a laser terminates after at most as many
  reflections as there are pieces. After six plies of a new game a red switch stands on
  (0, 3); red turns its laser to the right (a possible action), and the activation of the red
  laser does not return: for every recursion limit \<open>n\<close> it ends in \<open>RecursionError\<close>.
\<close>

theorem beam_on_switch_never_returns:
  "(case play 10 Game_init
           [move 11 (2, 4), move 14 (6, 4), move 11 (1, 3), move 14 (7, 4), move 11 (0, 3), move 14 (6, 4)] of
      Some (Inr g) \<Rightarrow>
        rotation 0 right \<in> set (getAllPossibleActions g red) \<and>
        activate_laser n (doAction g (rotation 0 right)) red = Inl RecursionError
    | _ \<Rightarrow> False)"
proof (cases "play 10 Game_init
           [move 11 (2, 4), move 14 (6, 4), move 11 (1, 3), move 14 (7, 4), move 11 (0, 3), move 14 (6, 4)]")
  case None
  with switch_position show ?thesis by simp
next
  case (Some res)
  show ?thesis
  proof (cases res)
    case (Inl e)
    with Some switch_position show ?thesis by simp
  next
    case (Inr g)
    with Some switch_position
    have legal: "rotation 0 right \<in> set (getAllPossibleActions g red)"
      and facts: "color (tokens (doAction g (rotation 0 right)) ! 0) = red"
        "orientation (tokens (doAction g (rotation 0 right)) ! 0) = right"
        "(row (tokens (doAction g (rotation 0 right)) ! 0), column (tokens (doAction g (rotation 0 right)) ! 0)) = (0, 0)"
        "name (tokens (doAction g (rotation 0 right)) ! 11) = switch"
        "(row (tokens (doAction g (rotation 0 right)) ! 11), column (tokens (doAction g (rotation 0 right)) ! 11)) = (0, 3)"
        "inhabiting_token (doAction g (rotation 0 right)) (0, 1) = None"
        "inhabiting_token (doAction g (rotation 0 right)) (0, 2) = None"
        "inhabiting_token (doAction g (rotation 0 right)) (0, 3) = Some 11"
      by (simp_all add: Let_def del: doAction.simps)
    from red_beam_on_switch [OF facts] legal Some Inr show ?thesis by simp
  qed
qed

section \<open>Search nodes without actions\<close>

lemma laser_always_has_a_rotation:
  assumes "reachable g" "laser_dict c = Some l"
  shows "\<exists>ori. rotation l ori \<in> set (getAllPossibleActions g c)"
proof -
  have inv: "laser_invariant g" using assms(1) by (rule reachable_invariant)
  then have la: "lasers_alive g" by (simp add: laser_invariant_def)
  note nm = laser_names [OF la]
  have alive: "\<not> destroyed (tokens g ! 0)" "\<not> destroyed (tokens g ! 13)"
    and col: "color (tokens g ! 0) = red" "color (tokens g ! 13) = blue"
    using la by (simp_all add: lasers_alive_def)
  have l: "l < length (tokens g)" "name (tokens g ! l) = laser" "color (tokens g ! l) = c"
    "\<not> destroyed (tokens g ! l)"
    using assms(2) nm col alive by (cases c; auto simp: laser_dict_def)+
  obtain ori where "getPossibleRotations (tokens g ! l) = [ori]"
    using l(2) by (simp add: getPossibleRotations_def)
  then have "rotation l ori \<in> set (map (rotation l) (getPossibleRotations (tokens g ! l)))"
    by simp
  then have "rotation l ori \<in> set (getAllPossibleActions g c)"
    using l unfolding getAllPossibleActions_def Let_def
    by (auto intro!: bexI [of _ l])
  then show ?thesis ..
qed

lemma minimax_no_actions:
  assumes "0 < depth" "int depth \<le> depth_limit ai"
    and "getAllPossibleActions g (if max_plays then ai_color ai else adversial_color ai) = []"
  shows "minimax ai n g depth max_plays alpha beta =
           Inr (g, evaluation (if max_plays then - 20000000000 else 20000000000))"
  using assms by (subst minimax.simps) (simp split: if_splits)

text \<open>
  Claim C6, amended. In a state reachable from a new game a colour always has an action (its
  laser has a rotation). On any game state where the acting colour of a node at a depth
  from 1 to the depth limit has no action, \<^verbatim>\<open>minimax\<close> returns the initial bound of the loop,
  -2e10 at a maximising node and 2e10 at a minimising node, and leaves the game unchanged;
  the position is not evaluated.
\<close>

theorem no_actions_returns_initial_bound:
  "(reachable g \<and> laser_dict c = Some l \<longrightarrow> getAllPossibleActions g c \<noteq> []) \<and>
   (0 < depth \<and> int depth \<le> depth_limit ai \<and>
    getAllPossibleActions g (if max_plays then ai_color ai else adversial_color ai) = [] \<longrightarrow>
      minimax ai n g depth max_plays alpha beta =
        Inr (g, evaluation (if max_plays then - 20000000000 else 20000000000)))"
proof (intro conjI impI)
  assume "reachable g \<and> laser_dict c = Some l"
  then obtain ori where "rotation l ori \<in> set (getAllPossibleActions g c)"
    using laser_always_has_a_rotation by blast
  then show "getAllPossibleActions g c \<noteq> []" by auto
next
  assume "0 < depth \<and> int depth \<le> depth_limit ai \<and>
    getAllPossibleActions g (if max_plays then ai_color ai else adversial_color ai) = []"
  then show "minimax ai n g depth max_plays alpha beta =
        Inr (g, evaluation (if max_plays then - 20000000000 else 20000000000))"
    by (intro minimax_no_actions) simp_all
qed

text \<open>
  Claim C6 as stated fails. With every blue token destroyed, the minimising node of a red AI
  at depth 1 returns 2e10 where \<^verbatim>\<open>evaluate_state\<close> gives 1e10; with every red token destroyed,
  the call at depth 0 raises \<^verbatim>\<open>UnboundLocalError\<close>.
\<close>

theorem no_actions_is_not_evaluated:
  "(case AI_init (all_destroyed blue Game_init) red 1 of
      Inl e \<Rightarrow> False
    | Inr ai \<Rightarrow>
        getAllPossibleActions (all_destroyed blue Game_init) (adversial_color ai) = [] \<and>
        evaluate_state ai (all_destroyed blue Game_init) = Inr 10000000000 \<and>
        (case minimax ai 10 (all_destroyed blue Game_init) 1 False (- 20000000000) 20000000000 of
           Inr (g, evaluation v) \<Rightarrow> v = 20000000000
         | _ \<Rightarrow> False)) \<and>
   (case AI_init (all_destroyed red Game_init) red 1 of
      Inl e \<Rightarrow> False
    | Inr ai \<Rightarrow>
        getAllPossibleActions (all_destroyed red Game_init) (ai_color ai) = [] \<and>
        (case minimax ai 10 (all_destroyed red Game_init) 0 True (- 20000000000) 20000000000 of
           Inl e \<Rightarrow> e = UnboundLocalError
         | Inr r \<Rightarrow> False))"
  by code_simp

text \<open>Claim C6, amended, at a new game and at the game with every blue token destroyed.\<close>

theorem no_actions_returns_initial_bound_witness:
  "reachable Game_init \<and> laser_dict red = Some 0 \<and> getAllPossibleActions Game_init red \<noteq> [] \<and>
   (\<exists>ai. AI_init (all_destroyed blue Game_init) red 1 = Inr ai \<and>
      (0::nat) < 1 \<and> int 1 \<le> depth_limit ai \<and>
      getAllPossibleActions (all_destroyed blue Game_init) (adversial_color ai) = [] \<and>
      minimax ai 10 (all_destroyed blue Game_init) 1 False (- 20000000000) 20000000000 =
        Inr (all_destroyed blue Game_init, evaluation 20000000000))"
proof -
  have l: "laser_dict red = Some 0"
    by (simp add: laser_dict_def)
  have 1: "getAllPossibleActions Game_init red \<noteq> []"
    using no_actions_returns_initial_bound [where g = Game_init and c = red and l = 0]
      reachable.new_game l by blast
  have "case AI_init (all_destroyed blue Game_init) red 1 of
      Inl e \<Rightarrow> False
    | Inr ai \<Rightarrow> depth_limit ai = 1 \<and>
        getAllPossibleActions (all_destroyed blue Game_init) (adversial_color ai) = []"
    by code_simp
  then obtain ai where ai: "AI_init (all_destroyed blue Game_init) red 1 = Inr ai"
    "depth_limit ai = 1"
    "getAllPossibleActions (all_destroyed blue Game_init) (adversial_color ai) = []"
    by (auto split: sum.splits)
  have "minimax ai 10 (all_destroyed blue Game_init) 1 False (- 20000000000) 20000000000 =
        Inr (all_destroyed blue Game_init, evaluation 20000000000)"
    using no_actions_returns_initial_bound
      [where depth = 1 and ai = ai and g = "all_destroyed blue Game_init" and max_plays = False
         and n = 10 and alpha = "- 20000000000" and beta = 20000000000] ai
    by simp
  with ai 1 l reachable.new_game show ?thesis by auto
qed

section \<open>The static evaluation\<close>








section \<open>The search and the board\<close>

text \<open>
  Claim C7 says that when the root call of \<^verbatim>\<open>minimax\<close> returns, the log has its length of
  before and occupancy, positions, orientations and destroyed flags are those of before.
  For a red AI of depth limit 0 on a new game the call returns the action that moves the
  defender of (0, 4) to (1, 5), with the log empty and every token as before, but the
  squares (3, 0) and (4, 0), which held two red deflectors, are empty.
\<close>

theorem search_leaves_squares_empty:
  "(case AI_init Game_init red 0 of
      Inl e \<Rightarrow> False
    | Inr ai \<Rightarrow>
       (case minimax ai 10 Game_init 0 True (- 20000000000) 20000000000 of
          Inl e \<Rightarrow> False
        | Inr (g, r) \<Rightarrow>
            r = best_action (move 2 (1, 5)) \<and>
            length (game_log g) = length (game_log Game_init) \<and>
            tokens g = tokens Game_init \<and>
            inhabiting_token Game_init (3, 0) = Some 6 \<and>
            inhabiting_token Game_init (4, 0) = Some 8 \<and>
            inhabiting_token g (3, 0) = None \<and>
            inhabiting_token g (4, 0) = None))"
  by code_simp

section \<open>Rotations\<close>

lemma mod4_in_range: "0 \<le> (v::int) mod 4 \<and> v mod 4 < 4"
  by simp

lemma value_of_Orientation_of: "0 \<le> v \<Longrightarrow> v < 4 \<Longrightarrow> value_of (Orientation_of v) = v"
  unfolding Orientation_of_def by auto

text \<open>
  Claim C10. With right = 0, up = 1, left = 2, down = 3, \<^verbatim>\<open>rotateClockwise\<close> of a deflector,
  defender or switch sets the orientation to (current - 1) mod 4 and \<^verbatim>\<open>rotateAntiClockwise\<close>
  to (current + 1) mod 4; for a laser both give the partner of the current orientation
  under the pairing right - down, left - up.
\<close>

theorem rotate_orientation:
  "(name tok \<in> {deflector, defender, switch} \<longrightarrow>
      (\<exists>tok'. rotateClockwise tok = Inr tok' \<and>
               value_of (orientation tok') = (value_of (orientation tok) - 1) mod 4 \<and>
               tok' = tok\<lparr>orientation := orientation tok'\<rparr>) \<and>
      (\<exists>tok'. rotateAntiClockwise tok = Inr tok' \<and>
               value_of (orientation tok') = (value_of (orientation tok) + 1) mod 4 \<and>
               tok' = tok\<lparr>orientation := orientation tok'\<rparr>)) \<and>
   (name tok = laser \<longrightarrow>
      rotateClockwise tok = rotateAntiClockwise tok \<and>
      rotateClockwise tok =
        Inr (tok\<lparr>orientation := (case orientation tok of
                     right \<Rightarrow> down | down \<Rightarrow> right | left \<Rightarrow> up | up \<Rightarrow> left)\<rparr>))"
proof -
  have range: "\<And>v::int. value_of (Orientation_of (v mod 4)) = v mod 4"
    by (rule value_of_Orientation_of) simp_all
  show ?thesis
    by (cases "name tok")
       (simp_all add: rotateClockwise_def rotateAntiClockwise_def getPossibleRotations_def range)
qed

theorem rotate_orientation_witness:
  "(\<exists>tok'. rotateClockwise (Deflector 1 2 red right) = Inr tok' \<and> orientation tok' = down) \<and>
   (\<exists>tok'. rotateAntiClockwise (Deflector 1 2 red right) = Inr tok' \<and> orientation tok' = up) \<and>
   rotateClockwise (Laser 0 0 red down) = Inr (Laser 0 0 red right) \<and>
   rotateAntiClockwise (Laser 0 0 red down) = Inr (Laser 0 0 red right)"
proof -
  have d: "name (Deflector 1 2 red right) \<in> {deflector, defender, switch}"
    and l: "name (Laser 0 0 red down) = laser"
    by (simp_all add: Deflector_def Laser_def)
  have v: "\<And>x. value_of x = 3 \<Longrightarrow> x = down" "\<And>x. value_of x = 1 \<Longrightarrow> x = up"
    by (case_tac x; simp)+
  from rotate_orientation [of "Deflector 1 2 red right"] d
  have "(\<exists>tok'. rotateClockwise (Deflector 1 2 red right) = Inr tok' \<and> value_of (orientation tok') = 3)"
    and "(\<exists>tok'. rotateAntiClockwise (Deflector 1 2 red right) = Inr tok' \<and> value_of (orientation tok') = 1)"
    by (auto simp: Deflector_def)
  moreover from rotate_orientation [of "Laser 0 0 red down"] l
  have "rotateClockwise (Laser 0 0 red down) = Inr (Laser 0 0 red right)"
    and "rotateAntiClockwise (Laser 0 0 red down) = Inr (Laser 0 0 red right)"
    by (auto simp: Laser_def)
  ultimately show ?thesis using v by blast
qed

end
